theory Spec2Isabelle
  imports Main "HOL-Library.Monad_Syntax"
begin

section \<open>NumPy integer arrays\<close>

text \<open>
  \<^verbatim>\<open>basebiginteger.py\<close> keeps the digits of a number in a NumPy array of fixed-width signed
  integers, least significant digit first.  An array is modelled by its element type and
  the list of its elements; every arithmetic result is reduced into the element type by
  two's complement wrap-around, as NumPy does (silently for arrays, with a warning for
  scalars).  Mixed operations follow NumPy 2 on a 64-bit platform: a Python \<^verbatim>\<open>int\<close> operand
  takes the type of the array or NumPy scalar it meets, two NumPy operands give the wider
  type, and a list of Python ints turned into an array is \<^verbatim>\<open>int64\<close>.  Where a Python
  integer does not fit the element type it meets, the call raises \<^verbatim>\<open>OverflowError\<close>.
\<close>

datatype dtype = Int8 | Int16 | Int32 | Int64

fun bits :: "dtype \<Rightarrow> nat" where
  "bits Int8 = 8"
| "bits Int16 = 16"
| "bits Int32 = 32"
| "bits Int64 = 64"

definition wrap :: "dtype \<Rightarrow> int \<Rightarrow> int" where
  "wrap t x = (x + 2 ^ (bits t - 1)) mod 2 ^ bits t - 2 ^ (bits t - 1)"

definition fits :: "dtype \<Rightarrow> int \<Rightarrow> bool" where
  "fits t x \<longleftrightarrow> - (2 ^ (bits t - 1)) \<le> x \<and> x < 2 ^ (bits t - 1)"

definition promote :: "dtype \<Rightarrow> dtype \<Rightarrow> dtype" where
  "promote s t = (if bits s \<le> bits t then t else s)"

datatype ndarray = NDArray (dtype_of: dtype) (els: "int list")

definition np_zeros :: "nat \<Rightarrow> dtype \<Rightarrow> ndarray" where
  "np_zeros n t = NDArray t (replicate n 0)"

definition np_append :: "ndarray \<Rightarrow> ndarray \<Rightarrow> ndarray" where
  "np_append a c = NDArray (promote (dtype_of a) (dtype_of c)) (els a @ els c)"

text \<open>\<^verbatim>\<open>np.trim_zeros(a, 'b')\<close> drops the zeros at the back (the most significant end).\<close>

definition trim_back :: "int list \<Rightarrow> int list" where
  "trim_back xs = rev (dropWhile (\<lambda>x. x = 0) (rev xs))"

definition np_trim_zeros :: "ndarray \<Rightarrow> ndarray" where
  "np_trim_zeros a = NDArray (dtype_of a) (trim_back (els a))"

text \<open>\<^verbatim>\<open>a[:] * s\<close> for an array \<open>a\<close> and a NumPy scalar \<open>s\<close> of element type \<open>ts\<close>.\<close>

definition np_scale :: "ndarray \<Rightarrow> dtype \<Rightarrow> int \<Rightarrow> ndarray" where
  "np_scale a ts s =
     (let t = promote (dtype_of a) ts in NDArray t (map (\<lambda>x. wrap t (x * s)) (els a)))"

section \<open>The comparator \<^verbatim>\<open>get_bigger_smaller\<close>\<close>

text \<open>
  The loop of \<^verbatim>\<open>get_bigger_smaller\<close> walks both arrays from index \<open>-1\<close> down, so it is
  written over the reversed lists.  It answers whether the loop leaves through
  \<^verbatim>\<open>return y,x\<close>.
\<close>

fun first_smaller :: "int list \<Rightarrow> int list \<Rightarrow> bool" where
  "first_smaller (x # xs) (y # ys) =
     (if x < y then True else if x > y then False else first_smaller xs ys)"
| "first_smaller _ _ = False"

definition swapped :: "int list \<Rightarrow> int list \<Rightarrow> bool" where
  "swapped x y \<longleftrightarrow>
     length x < length y \<or> (length x = length y \<and> first_smaller (rev x) (rev y))"

definition get_bigger_smaller :: "ndarray \<Rightarrow> ndarray \<Rightarrow> ndarray \<times> ndarray" where
  "get_bigger_smaller x y = (if swapped (els x) (els y) then (y, x) else (x, y))"

section \<open>Results of calls\<close>

text \<open>
  A call either returns, raises, or does not come back.  The result of a call is
  \<open>None\<close> when it runs forever, \<open>Some (Inl e)\<close> when it raises \<open>e\<close> and
  \<open>Some (Inr v)\<close> when it returns \<open>v\<close>.  \<open>OverflowError\<close> is what NumPy 2 raises when
  a Python integer meets an array or scalar whose element type cannot hold it.
  \<open>OutsideInt64\<close> is not an exception of the source: it marks the point where a Python
  integer outside the \<^verbatim>\<open>int64\<close> range enters an array, after which NumPy leaves the
  signed integer element types (the digits become floating point numbers or Python
  objects) and the model does not follow.
\<close>

datatype error = IndexError | ValueError | TypeError | OverflowError | ZeroLength | OutsideInt64

definition rbind ::
  "(error + 'a) option \<Rightarrow> ('a \<Rightarrow> (error + 'b) option) \<Rightarrow> (error + 'b) option" where
  "rbind m f = Option.bind m (\<lambda>r. case r of Inl e \<Rightarrow> Some (Inl e) | Inr x \<Rightarrow> f x)"

lemma rbind_mono [partial_function_mono]:
  assumes mf: "mono_option B" and mg: "\<And>y. mono_option (\<lambda>f. C y f)"
  shows "mono_option (\<lambda>f. rbind (B f) (\<lambda>y. C y f))"
  unfolding rbind_def
proof (rule bind_mono[OF mf])
  fix r
  show "mono_option (\<lambda>f. case r of Inl e \<Rightarrow> Some (Inl e) | Inr x \<Rightarrow> C x f)"
    by (cases r) (simp_all add: mg option.const_mono)
qed

lemma rbind_simps [simp]:
  "rbind None f = None"
  "rbind (Some (Inl e)) f = Some (Inl e)"
  "rbind (Some (Inr x)) f = f x"
  by (simp_all add: rbind_def)

section \<open>The normalizer \<^verbatim>\<open>propogate_carryovers\<close>\<close>

text \<open>
  The \<^verbatim>\<open>for\<close> loop: digit by digit, the floor quotient goes to the next digit and the
  remainder stays.  Every call site passes \<^verbatim>\<open>self._base\<close> as \<^verbatim>\<open>base\<close>, so the model has
  one base.
\<close>

fun carry_scan :: "dtype \<Rightarrow> int \<Rightarrow> int list \<Rightarrow> int list" where
  "carry_scan t b (x # y # zs) =
     wrap t (x mod b) # carry_scan t b (wrap t (y + wrap t (x div b)) # zs)"
| "carry_scan t b xs = xs"

text \<open>The treatment of a negative most significant digit, with the sign flip.\<close>

definition fix_top :: "dtype \<Rightarrow> int \<Rightarrow> int list \<Rightarrow> bool \<Rightarrow> int list \<times> bool" where
  "fix_top t b xs negative =
     (if last xs < 0 then
        (if length xs > 1
         then (xs[length xs - 2 := wrap t (last xs mod b), length xs - 1 := 0])
         else (xs[length xs - 1 := wrap t (last xs mod b)]),
         \<not> negative)
      else (xs, negative))"

text \<open>
  The \<^verbatim>\<open>while\<close> loop that grows the array while the top digit is not below the base.  It
  need not end (base 1), so the result is optional: \<open>None\<close> is a loop that runs forever.
\<close>

partial_function (option) carry_up :: "dtype \<Rightarrow> int \<Rightarrow> int list \<Rightarrow> int list option" where
  "carry_up t b xs =
     (if last xs \<ge> b
      then carry_up t b ((xs @ [wrap t (last xs div b)])[length xs - 1 := wrap t (last xs mod b)])
      else Some xs)"

declare carry_up.simps [code]

text \<open>
  \<^verbatim>\<open>propogate_carryovers\<close>.  The base is a Python integer; NumPy 2 raises
  \<^verbatim>\<open>OverflowError\<close> at the first \<^verbatim>\<open>//\<close> or \<^verbatim>\<open>%\<close> that combines it with an element of the
  array when the element type cannot hold it (comparisons with such a base do not raise).
  That is the first pass of the \<^verbatim>\<open>for\<close> loop when there are two digits or more, the
  \<^verbatim>\<open>%\<close> of a negative top digit, and the first pass of the \<^verbatim>\<open>while\<close> loop.
\<close>

definition propogate_carryovers ::
  "dtype \<Rightarrow> int \<Rightarrow> ndarray \<Rightarrow> bool \<Rightarrow> (error + ndarray \<times> bool) option" where
  "propogate_carryovers st b result negative =
     (let t = dtype_of result in
      if length (els result) \<ge> 2 \<and> \<not> fits t b then Some (Inl OverflowError)
      else
        let xs = carry_scan t b (els result) in
        if xs \<noteq> [] then
          (if last xs < 0 \<and> \<not> fits t b then Some (Inl OverflowError)
           else
             (case fix_top t b xs negative of
                (ys, neg) \<Rightarrow>
                  if last ys \<ge> b \<and> \<not> fits t b then Some (Inl OverflowError)
                  else do { zs \<leftarrow> carry_up t b ys; Some (Inr (NDArray t zs, neg)) }))
        else Some (Inr (np_zeros 1 st, False)))"

section \<open>Addition and subtraction of digit arrays\<close>

text \<open>
  \<^verbatim>\<open>_add_numbers\<close> copies the bigger array, adds or subtracts the smaller one into its low
  digits (the sum is computed in the wider element type and stored back into the copy),
  normalizes and trims.  The test \<^verbatim>\<open>n1 is bigger\<close> is object identity: \<^verbatim>\<open>n1\<close> is the
  returned object exactly when the comparator did not swap (when both names denote one
  object the contents are equal and nothing is swapped).
\<close>

definition add_numbers ::
  "dtype \<Rightarrow> int \<Rightarrow> ndarray \<Rightarrow> bool \<Rightarrow> ndarray \<Rightarrow> bool \<Rightarrow> (error + ndarray \<times> bool) option" where
  "add_numbers st b n1 neg1 n2 neg2 =
     (case get_bigger_smaller n1 n2 of (bigger, smaller) \<Rightarrow>
        let overlap = length (els smaller);
            tb = dtype_of bigger;
            tp = promote tb (dtype_of smaller);
            front = map2 (\<lambda>x y. wrap tb (wrap tp (if neg1 = neg2 then x + y else x - y)))
                      (take overlap (els bigger)) (els smaller);
            result = NDArray tb (front @ drop overlap (els bigger))
        in rbind (propogate_carryovers st b result
                    (if swapped (els n1) (els n2) then neg2 else neg1))
             (\<lambda>(r, neg). Some (Inr (np_trim_zeros r, neg))))"

definition subtract_numbers ::
  "dtype \<Rightarrow> int \<Rightarrow> ndarray \<Rightarrow> bool \<Rightarrow> ndarray \<Rightarrow> bool \<Rightarrow> (error + ndarray \<times> bool) option" where
  "subtract_numbers st b n1 neg1 n2 neg2 = add_numbers st b n1 neg1 n2 (\<not> neg2)"

section \<open>Karatsuba multiplication of digit arrays\<close>

text \<open>
  \<^verbatim>\<open>_multiply_numbers\<close> is a real recursion with three recursive calls; it is a partial
  function, \<open>None\<close> standing for a call that does not return; the first call that
  raises ends the whole computation (\<open>rbind\<close>).  Slices keep the element
  type of the array they are cut from; \<^verbatim>\<open>first[0]\<close> is a NumPy scalar of that type.
\<close>

definition slice_to :: "nat \<Rightarrow> ndarray \<Rightarrow> ndarray" where
  "slice_to m a = NDArray (dtype_of a) (take m (els a))"

definition slice_from :: "nat \<Rightarrow> ndarray \<Rightarrow> ndarray" where
  "slice_from m a = NDArray (dtype_of a) (drop m (els a))"

partial_function (option) multiply_numbers ::
  "dtype \<Rightarrow> int \<Rightarrow> ndarray \<Rightarrow> ndarray \<Rightarrow> (error + ndarray \<times> bool) option" where
  "multiply_numbers st bs first0 second0 =
     (let first = (if length (els first0) < length (els second0) then second0 else first0);
          second = (if length (els first0) < length (els second0) then first0 else second0);
          lenfirst = length (els first);
          lensecond = length (els second)
      in
      if lenfirst = 1 then
        propogate_carryovers st bs (np_scale second (dtype_of first) (els first ! 0)) False
      else if lensecond = 1 then
        propogate_carryovers st bs (np_scale first (dtype_of second) (els second ! 0)) False
      else if lenfirst = 0 \<or> lensecond = 0 then Some (Inr (np_zeros 1 st, False))
      else
        let m = lenfirst div 2;
            b = np_trim_zeros (slice_to m first);
            a = slice_from m first;
            d = np_trim_zeros (slice_to m second);
            c = slice_from m second
        in
        rbind (multiply_numbers st bs a c) (\<lambda>(z2, z2neg).
        rbind (multiply_numbers st bs b d) (\<lambda>(z0, z0neg).
        rbind (add_numbers st bs a False b False) (\<lambda>(ab, abneg).
        rbind (add_numbers st bs c False d False) (\<lambda>(cd, cdneg).
        rbind (multiply_numbers st bs ab cd) (\<lambda>(z1, z1neg).
        rbind (add_numbers st bs z2 z1neg z0 z0neg) (\<lambda>(z2z0, z2z0neg).
        rbind (add_numbers st bs z1 z1neg z2z0 (\<not> z2z0neg)) (\<lambda>(zmiddle, zmneg).
        rbind (add_numbers st bs (np_append (np_zeros (2 * m) st) z2) z2neg z0 z0neg)
          (\<lambda>(zends, zendsneg).
        add_numbers st bs zends zendsneg (np_append (np_zeros m st) zmiddle) zmneg)))))))))"

declare multiply_numbers.simps [code]

section \<open>Values\<close>

record BaseBigInteger =
  number :: ndarray
  base :: int
  negative :: bool
  store :: dtype

text \<open>The clean-up loop of \<^verbatim>\<open>__init__\<close>: delete the last digit while it is a zero and not the only one.\<close>

function strip_leading :: "int list \<Rightarrow> int list" where
  "strip_leading xs =
     (if length xs > 1 \<and> last xs = 0 then strip_leading (butlast xs) else xs)"
  by pat_completeness auto
termination
  by (relation "measure length") auto

text \<open>
  The common tail of \<^verbatim>\<open>__init__\<close>: normalize (or raise on an empty array), then clean up.
\<close>

definition init_finish ::
  "ndarray \<Rightarrow> int \<Rightarrow> bool \<Rightarrow> dtype \<Rightarrow> (error + BaseBigInteger) option" where
  "init_finish num b neg st =
     (if length (els num) > 0 then
        rbind (propogate_carryovers st b num neg)
          (\<lambda>(r, neg'). Some (Inr \<lparr>number = NDArray (dtype_of r) (strip_leading (els r)),
                                   base = b, negative = neg', store = st\<rparr>))
      else Some (Inl ZeroLength))"

text \<open>\<^verbatim>\<open>__init__\<close> on an array: a copy, an empty array replaced by one zero digit.\<close>

definition init_array ::
  "ndarray \<Rightarrow> int \<Rightarrow> bool \<Rightarrow> dtype \<Rightarrow> (error + BaseBigInteger) option" where
  "init_array x b neg st =
     init_finish (if length (els x) < 1 then np_zeros 1 st else x) b neg st"

text \<open>
  \<^verbatim>\<open>__init__\<close> on a Python integer.  The first pass of the loop makes a one-digit array of
  the store type (NumPy 2 raises when the digit does not fit); every later pass overwrites
  the last digit (NumPy 2 raises when it does not fit) and appends the quotient as a list
  of one Python int, which makes the array \<^verbatim>\<open>int64\<close> as long as the quotient is inside the
  \<^verbatim>\<open>int64\<close> range.
\<close>

definition set_last :: "ndarray \<Rightarrow> int \<Rightarrow> ndarray" where
  "set_last a v = NDArray (dtype_of a) ((els a)[length (els a) - 1 := v])"

partial_function (option) int_digits :: "int \<Rightarrow> ndarray \<Rightarrow> int \<Rightarrow> (error + ndarray) option" where
  "int_digits b num x =
     (if x \<ge> b then
        (if \<not> fits (dtype_of num) (x mod b) then Some (Inl OverflowError)
         else if \<not> fits Int64 (x div b) then Some (Inl OutsideInt64)
         else int_digits b (np_append (set_last num (x mod b)) (NDArray Int64 [x div b]))
                (x div b))
      else Some (Inr num))"

declare int_digits.simps [code]

definition init_int ::
  "int \<Rightarrow> int \<Rightarrow> bool \<Rightarrow> dtype \<Rightarrow> (error + BaseBigInteger) option" where
  "init_int x0 b neg0 st =
     (let x = (if x0 < 0 then - x0 else x0);
          neg = (if x0 < 0 then True else neg0)
      in if fits st (x mod b)
         then rbind (int_digits b (NDArray st [x mod b]) x) (\<lambda>num. init_finish num b neg st)
         else Some (Inl OverflowError))"

text \<open>
  \<^verbatim>\<open>__init__\<close> on a string (of ASCII characters).  \<^verbatim>\<open>x[0]\<close> raises on the empty string;
  \<^verbatim>\<open>replace\<close> removes every minus sign; up to base 10 each character goes through Python's
  \<^verbatim>\<open>int\<close>, which raises unless it is a decimal digit; above base 10 every character is
  mapped through its code point, decimal digits to 0..9 and anything else to its code
  point minus 55.
\<close>

definition py_int_char :: "char \<Rightarrow> error + int" where
  "py_int_char c =
     (if 48 \<le> (of_char c :: int) \<and> (of_char c :: int) \<le> 57 then Inr (of_char c - 48)
      else Inl ValueError)"

fun py_int_chars :: "string \<Rightarrow> error + int list" where
  "py_int_chars [] = Inr []"
| "py_int_chars (c # cs) =
     (case py_int_char c of
        Inl e \<Rightarrow> Inl e
      | Inr d \<Rightarrow> (case py_int_chars cs of Inl e \<Rightarrow> Inl e | Inr ds \<Rightarrow> Inr (d # ds)))"

definition py_upper :: "char \<Rightarrow> char" where
  "py_upper c =
     (if 97 \<le> (of_char c :: nat) \<and> (of_char c :: nat) \<le> 122 then char_of (of_char c - (32::nat))
      else c)"

definition ord_digit :: "char \<Rightarrow> int" where
  "ord_digit c =
     (if 48 \<le> (of_char c :: int) \<and> (of_char c :: int) \<le> 57 then of_char c - 48
      else of_char c - 65 + 10)"

definition init_str ::
  "string \<Rightarrow> int \<Rightarrow> bool \<Rightarrow> dtype \<Rightarrow> (error + BaseBigInteger) option" where
  "init_str x0 b neg0 st =
     (case x0 of
        [] \<Rightarrow> Some (Inl IndexError)
      | c0 # _ \<Rightarrow>
          let neg = (if c0 = CHR ''-'' then True else neg0);
              x = (if c0 = CHR ''-'' then filter (\<lambda>c. c \<noteq> CHR ''-'') x0 else x0)
          in if length x < 1 then init_finish (np_zeros 1 st) b neg st
             else if b \<le> 10 then
               (case py_int_chars (rev x) of
                  Inl e \<Rightarrow> Some (Inl e)
                | Inr ds \<Rightarrow> init_finish (NDArray st ds) b neg st)
             else
               (let ds = map ord_digit (rev (map py_upper x))
                in if list_all (fits st) ds then init_finish (NDArray st ds) b neg st
                   else Some (Inl OverflowError)))"

section \<open>The operators\<close>

text \<open>
  \<^verbatim>\<open>__add__\<close> and \<^verbatim>\<open>__sub__\<close> hand the left operand's store type to the new value;
  \<^verbatim>\<open>__mul__\<close> and \<^verbatim>\<open>shift\<close> call the constructor without it, so the default \<^verbatim>\<open>np.int16\<close>
  applies.
\<close>

definition BaseBigInteger_add ::
  "BaseBigInteger \<Rightarrow> BaseBigInteger \<Rightarrow> (error + BaseBigInteger) option" where
  "BaseBigInteger_add self other =
     rbind (add_numbers (store self) (base self)
              (number self) (negative self) (number other) (negative other))
       (\<lambda>(result, neg). init_array result (base self) neg (store self))"

definition BaseBigInteger_mul ::
  "BaseBigInteger \<Rightarrow> BaseBigInteger \<Rightarrow> (error + BaseBigInteger) option" where
  "BaseBigInteger_mul self other =
     rbind (multiply_numbers (store self) (base self) (number self) (number other))
       (\<lambda>(result, neg).
          init_array result (base self) (neg \<or> (negative self \<noteq> negative other)) Int16)"

definition BaseBigInteger_sub ::
  "BaseBigInteger \<Rightarrow> BaseBigInteger \<Rightarrow> (error + BaseBigInteger) option" where
  "BaseBigInteger_sub self other =
     rbind (add_numbers (store self) (base self)
              (number self) (negative self) (number other) (\<not> negative other))
       (\<lambda>(result, neg). init_array result (base self) neg (store self))"

definition shift :: "BaseBigInteger \<Rightarrow> int \<Rightarrow> (error + BaseBigInteger) option" where
  "shift self shift_num =
     rbind (init_array (number self) (base self) (negative self) Int16)
       (\<lambda>result.
          if shift_num = 0 then Some (Inr result)
          else if shift_num > 0 then
            Some (Inr (result\<lparr>number :=
                    np_append (np_zeros (nat shift_num) (store self)) (number result)\<rparr>))
          else if int (length (els (number result))) + shift_num > 0 then
            Some (Inr (result\<lparr>number := slice_from (nat (- shift_num)) (number result)\<rparr>))
          else init_int 0 (base self) False Int16)"

section \<open>Rendering\<close>

text \<open>Python's \<^verbatim>\<open>str\<close> of an integer, \<^verbatim>\<open>zfill\<close>, and \<^verbatim>\<open>chr\<close> (for code points below 256).\<close>

function str_nat :: "nat \<Rightarrow> string" where
  "str_nat n =
     (if n < 10 then [char_of (48 + n)] else str_nat (n div 10) @ [char_of (48 + n mod 10)])"
  by pat_completeness auto
termination
  by (relation "measure id") auto

definition py_str :: "int \<Rightarrow> string" where
  "py_str x = (if x < 0 then CHR ''-'' # str_nat (nat (- x)) else str_nat (nat x))"

definition zfill :: "nat \<Rightarrow> string \<Rightarrow> string" where
  "zfill n s =
     (if length s \<ge> n then s
      else (case s of
              [] \<Rightarrow> replicate n (CHR ''0'')
            | c # cs \<Rightarrow>
                if c = CHR ''-'' \<or> c = CHR ''+''
                then c # replicate (n - length s) (CHR ''0'') @ cs
                else replicate (n - length s) (CHR ''0'') @ s))"

definition py_chr :: "int \<Rightarrow> char" where
  "py_chr x = char_of (nat x)"

text \<open>The loop of \<^verbatim>\<open>__str__\<close> that counts how often the base can be divided by ten.\<close>

function group_width :: "int \<Rightarrow> nat" where
  "group_width b = (if b > 1 then Suc (group_width (b div 10)) else 0)"
  by pat_completeness auto
termination
  by (relation "measure nat") auto

definition grouped_bases :: "int list" where
  "grouped_bases =
     [100, 1000, 10000, 100000, 1000000, 10000000, 100000000, 1000000000]"

text \<open>
  \<^verbatim>\<open>__str__\<close>.  In the third branch \<^verbatim>\<open>len(self._number > 1)\<close> is the length of an array of
  booleans, that is the number of digits.  In the last branch \<^verbatim>\<open>'|'.join\<close> receives the
  digits as Python ints and raises \<^verbatim>\<open>TypeError\<close> on the first of them.
\<close>

definition BaseBigInteger_str :: "BaseBigInteger \<Rightarrow> error + string" where
  "BaseBigInteger_str self =
     (let ds = els (number self);
          sign = (if negative self then [CHR ''-''] else [])
      in
      if base self \<le> 10 then Inr (sign @ concat (map py_str (rev ds)))
      else if base self \<le> 36 then
        Inr (sign @ concat (map (\<lambda>x. if x < 10 then py_str x else [py_chr (65 + x - 10)])
                            (rev ds)))
      else if base self \<in> set grouped_bases then
        (if ds = [] then Inl IndexError
         else Inr (sign @ py_str (last ds) @
                   (if length ds \<noteq> 0
                    then concat (map (\<lambda>x. zfill (group_width (base self)) (py_str x))
                                   (rev (butlast ds)))
                    else [])))
      else (if ds = [] then Inr sign else Inl TypeError))"

section \<open>Digit sequences and what they denote\<close>

text \<open>
  The number a little-endian digit sequence denotes in base \<open>b\<close>, the digits of a
  canonical sequence, and the bases an element type can hold.
\<close>

fun val :: "int \<Rightarrow> int list \<Rightarrow> int" where
  "val b [] = 0"
| "val b (x # xs) = x + b * val b xs"

definition digs :: "int \<Rightarrow> int list \<Rightarrow> bool" where
  "digs b xs = list_all (\<lambda>x. 0 \<le> x \<and> x < b) xs"

definition holds :: "dtype \<Rightarrow> int \<Rightarrow> bool" where
  "holds t b \<longleftrightarrow> 2 \<le> b \<and> fits t b"

lemma wrap_id: "fits t x \<Longrightarrow> wrap t x = x"
  by (cases t) (simp_all add: wrap_def fits_def mod_pos_pos_trivial)

lemma fits_wrap: "fits t (wrap t x)"
  by (cases t) (simp_all add: wrap_def fits_def)

lemma holds_fits: "holds t b \<Longrightarrow> 0 \<le> x \<Longrightarrow> x < b \<Longrightarrow> fits t x"
  by (simp add: holds_def fits_def)

lemma wrap_mod: "holds t b \<Longrightarrow> wrap t (x mod b) = x mod b"
  by (rule wrap_id, rule holds_fits[of t b]) (simp_all add: holds_def)

lemma length_carry_scan [simp]: "length (carry_scan t b xs) = length xs"
  by (induction t b xs rule: carry_scan.induct) simp_all

lemma carry_scan_Nil_iff [simp]: "carry_scan t b xs = [] \<longleftrightarrow> xs = []"
  by (metis length_carry_scan length_0_conv)

lemma digs_butlast_carry_scan:
  "holds t b \<Longrightarrow> digs b (butlast (carry_scan t b xs))"
proof (induction t b xs rule: carry_scan.induct)
  case (1 t b x y zs)
  then show ?case by (simp add: digs_def wrap_mod holds_def)
qed (simp_all add: digs_def)

lemma fits_carry_scan:
  "list_all (fits t) xs \<Longrightarrow> list_all (fits t) (carry_scan t b xs)"
  by (induction t b xs rule: carry_scan.induct) (simp_all add: fits_wrap)


lemma val_append: "val b (xs @ ys) = val b xs + b ^ length xs * val b ys"
  by (induction xs) (simp_all add: algebra_simps)

lemma digs_append [simp]: "digs b (xs @ ys) \<longleftrightarrow> digs b xs \<and> digs b ys"
  by (simp add: digs_def)

lemma digs_Cons [simp]: "digs b (x # xs) \<longleftrightarrow> 0 \<le> x \<and> x < b \<and> digs b xs"
  by (simp add: digs_def)

lemma digs_Nil [simp]: "digs b []"
  by (simp add: digs_def)

lemma val_digs_bounds: "digs b xs \<Longrightarrow> 0 \<le> val b xs \<and> val b xs < b ^ length xs"
proof (induction xs)
  case Nil
  then show ?case by simp
next
  case (Cons x xs)
  then have x: "0 \<le> x" "x < b" and ih: "0 \<le> val b xs" "val b xs + 1 \<le> b ^ length xs"
    by simp_all
  from x have b: "0 < b" by simp
  have "b * (val b xs + 1) \<le> b * b ^ length xs"
    using ih(2) b by (simp add: mult_left_mono)
  then have "x + b * val b xs < b * b ^ length xs"
    using x by (simp add: algebra_simps)
  moreover have "0 \<le> x + b * val b xs"
    using x ih(1) b by simp
  ultimately show ?case by simp
qed

lemma carry_up_snoc:
  assumes "holds t b" "fits t x"
  shows "\<exists>hs. carry_up t b (ys @ [x]) = Some (ys @ hs) \<and> hs \<noteq> [] \<and> val b hs = x \<and>
              (0 \<le> x \<longrightarrow> digs b hs) \<and> (x \<noteq> 0 \<longrightarrow> last hs \<noteq> 0) \<and> (x < b \<longrightarrow> hs = [x])"
  using assms(2)
proof (induction "nat x" arbitrary: x ys rule: less_induct)
  case less
  show ?case
  proof (cases "x < b")
    case True
    then have "carry_up t b (ys @ [x]) = Some (ys @ [x])"
      by (subst carry_up.simps) simp
    with True show ?thesis by simp
  next
    case False
    with assms(1) have xb: "b \<le> x" "2 \<le> b" "0 < x" by (simp_all add: holds_def)
    have q: "0 < x div b" "x div b < x"
      using xb by (simp_all add: pos_imp_zdiv_pos_iff int_div_less_self)
    have fq: "fits t (x div b)"
      using q less.prems by (simp add: fits_def)
    have step: "carry_up t b (ys @ [x]) = carry_up t b ((ys @ [x mod b]) @ [x div b])"
      using xb by (subst carry_up.simps) (simp add: wrap_mod[OF assms(1)] wrap_id[OF fq] list_update_append)
    have "nat (x div b) < nat x" using q by simp
    from less.hyps[OF this fq, of "ys @ [x mod b]"] obtain hs where
      hs: "carry_up t b ((ys @ [x mod b]) @ [x div b]) = Some ((ys @ [x mod b]) @ hs)"
        "hs \<noteq> []" "val b hs = x div b" "digs b hs" "last hs \<noteq> 0"
      using q by auto
    have "carry_up t b (ys @ [x]) = Some (ys @ (x mod b # hs))"
      using step hs(1) by simp
    moreover have "val b (x mod b # hs) = x" using hs(3) by simp
    moreover have "digs b (x mod b # hs)" using hs(4) xb by simp
    moreover have "last (x mod b # hs) \<noteq> 0" using hs(2,5) by simp
    ultimately show ?thesis using False by blast
  qed
qed


lemma fix_top_snoc:
  "fix_top t b (ys @ [x]) neg =
     (if x < 0
      then ((if ys \<noteq> [] then butlast ys @ [wrap t (x mod b), 0] else [wrap t (x mod b)]), \<not> neg)
      else (ys @ [x], neg))"
  by (cases ys rule: rev_cases) (simp_all add: fix_top_def list_update_append nth_append)

lemma fix_top_single:
  "fix_top t b [x] neg = (if x < 0 then ([wrap t (x mod b)], \<not> neg) else ([x], neg))"
  by (simp add: fix_top_def)

lemma carry_scan_snoc:
  assumes "holds t b" "list_all (fits t) xs" "xs \<noteq> []"
  obtains ys x where "carry_scan t b xs = ys @ [x]" "digs b ys" "fits t x"
    "length ys = length xs - 1"
proof -
  let ?cs = "carry_scan t b xs"
  have ne: "?cs \<noteq> []" using assms(3) by simp
  then have eq: "?cs = butlast ?cs @ [last ?cs]" by simp
  have "list_all (fits t) ?cs" using assms(2) by (rule fits_carry_scan)
  then have "fits t (last ?cs)" using ne by (simp add: list_all_iff)
  moreover have "digs b (butlast ?cs)" using assms(1) by (rule digs_butlast_carry_scan)
  moreover have "length (butlast ?cs) = length xs - 1" by simp
  ultimately show ?thesis using eq that by blast
qed

lemma holds_fits_base: "holds t b \<Longrightarrow> fits t b"
  by (simp add: holds_def)

lemma prop_unfold:
  assumes "fits t b" "xs \<noteq> []"
  shows "propogate_carryovers st b (NDArray t xs) neg =
           (case fix_top t b (carry_scan t b xs) neg of
              (ys, neg') \<Rightarrow> do { zs \<leftarrow> carry_up t b ys; Some (Inr (NDArray t zs, neg')) })"
  using assms by (simp add: propogate_carryovers_def Let_def split: prod.splits)

lemma prop_general:
  assumes "holds t b" "list_all (fits t) xs" "xs \<noteq> []"
  shows "\<exists>zs neg'. propogate_carryovers st b (NDArray t xs) neg = Some (Inr (NDArray t zs, neg')) \<and>
           zs \<noteq> [] \<and> digs b zs \<and> length xs \<le> length zs"
proof -
  from assms obtain ys x where cs: "carry_scan t b xs = ys @ [x]" "digs b ys" "fits t x"
    "length ys = length xs - 1"
    by (rule carry_scan_snoc)
  have b2: "2 \<le> b" using assms(1) by (simp add: holds_def)
  have fb: "fits t b" using assms(1) by (rule holds_fits_base)
  note unf = prop_unfold[OF fb assms(3), of st neg, unfolded cs(1)]
  have len: "length xs = Suc (length ys)" using cs(4) assms(3) by (cases xs) simp_all
  show ?thesis
  proof (cases "x < 0")
    case False
    from carry_up_snoc[OF assms(1) cs(3), of ys] obtain hs where
      hs: "carry_up t b (ys @ [x]) = Some (ys @ hs)" "hs \<noteq> []" "digs b hs"
      using False by auto
    have "propogate_carryovers st b (NDArray t xs) neg = Some (Inr (NDArray t (ys @ hs), neg))"
      using False hs(1) by (simp add: unf fix_top_snoc)
    moreover have "length xs \<le> length (ys @ hs)" using len hs(2) by (cases hs) simp_all
    ultimately show ?thesis using hs(2,3) cs(2) by auto
  next
    case True
    let ?r = "x mod b"
    have r: "0 \<le> ?r" "?r < b" using b2 by simp_all
    have wr: "wrap t ?r = ?r" using assms(1) by (rule wrap_mod)
    show ?thesis
    proof (cases "ys = []")
      case True
      have "carry_up t b ([] @ [?r]) = Some ([] @ [?r])"
        using r by (subst carry_up.simps) simp
      then have "propogate_carryovers st b (NDArray t xs) neg = Some (Inr (NDArray t [?r], \<not> neg))"
        using \<open>x < 0\<close> True unf by (simp add: fix_top_single wr)
      then show ?thesis using r len True by simp
    next
      case False
      have "carry_up t b ((butlast ys @ [?r]) @ [0]) = Some ((butlast ys @ [?r]) @ [0])"
        using b2 by (subst carry_up.simps) simp
      then have "propogate_carryovers st b (NDArray t xs) neg =
                   Some (Inr (NDArray t (butlast ys @ [?r, 0]), \<not> neg))"
        using \<open>x < 0\<close> False by (simp add: unf fix_top_snoc wr)
      moreover have "digs b (butlast ys @ [?r, 0])"
        using cs(2) r b2 False by (cases ys rule: rev_cases) simp_all
      moreover have "length xs \<le> length (butlast ys @ [?r, 0])"
        using len False by (cases ys rule: rev_cases) simp_all
      ultimately show ?thesis by auto
    qed
  qed
qed

declare strip_leading.simps [simp del]

lemma strip_leading_props:
  "xs \<noteq> [] \<Longrightarrow> strip_leading xs \<noteq> [] \<and> (length (strip_leading xs) > 1 \<longrightarrow> last (strip_leading xs) \<noteq> 0)"
proof (induction xs rule: strip_leading.induct)
  case (1 xs)
  show ?case
  proof (cases "length xs > 1 \<and> last xs = 0")
    case True
    then have "butlast xs \<noteq> []" by (cases xs rule: rev_cases) auto
    with 1 True show ?thesis by (subst (1 2 3) strip_leading.simps) simp
  next
    case False
    with 1 show ?thesis by (subst (1 2 3) strip_leading.simps) auto
  qed
qed

lemma strip_leading_digs: "digs b xs \<Longrightarrow> digs b (strip_leading xs)"
proof (induction xs rule: strip_leading.induct)
  case (1 xs)
  show ?case
  proof (cases "length xs > 1 \<and> last xs = 0")
    case True
    then have "xs = butlast xs @ [last xs]" by (cases xs rule: rev_cases) auto
    then have "digs b (butlast xs)" using 1(2) by (metis digs_append)
    with 1 True show ?thesis by (subst strip_leading.simps) simp
  next
    case False
    with 1 show ?thesis by (subst strip_leading.simps) auto
  qed
qed


section \<open>The comparator orders magnitudes\<close>

definition no_leading_zero :: "int list \<Rightarrow> bool" where
  "no_leading_zero xs \<longleftrightarrow> (length xs > 1 \<longrightarrow> last xs \<noteq> 0)"

lemma first_smaller_snoc:
  "first_smaller (rev (xs @ [a])) (rev (ys @ [c])) =
     (if a < c then True else if c < a then False else first_smaller (rev xs) (rev ys))"
  by simp

lemma first_smaller_refl [simp]: "\<not> first_smaller xs xs"
  by (induction xs) simp_all

lemma first_smaller_index:
  assumes "length xs = length ys" "i < length xs" "xs ! i \<noteq> ys ! i"
    "\<forall>j. i < j \<and> j < length xs \<longrightarrow> xs ! j = ys ! j"
  shows "first_smaller (rev xs) (rev ys) \<longleftrightarrow> xs ! i < ys ! i"
  using assms
proof (induction xs arbitrary: ys rule: rev_induct)
  case Nil
  from Nil.prems(2) show ?case by simp
next
  case (snoc a xs)
  from snoc.prems(1) obtain c ys' where ys: "ys = ys' @ [c]" and len: "length ys' = length xs"
    by (cases ys rule: rev_cases) simp_all
  have nx: "(xs @ [a]) ! length xs = a" by simp
  have ny: "ys ! length xs = c" using ys len by (metis nth_append_length)
  show ?case
  proof (cases "i = length xs")
    case True
    then have "a \<noteq> c" using snoc.prems(3) nx ny by simp
    then show ?thesis using True nx ny ys by auto
  next
    case False
    then have i: "i < length xs" using snoc.prems(2) by simp
    have "i < length xs \<and> length xs < length (xs @ [a])" using i by simp
    then have "(xs @ [a]) ! length xs = ys ! length xs"
      using snoc.prems(4) by blast
    then have ac: "a = c" using nx ny by simp
    have "\<forall>j. i < j \<and> j < length xs \<longrightarrow> xs ! j = ys' ! j"
    proof (intro allI impI)
      fix j assume j: "i < j \<and> j < length xs"
      then have "i < j \<and> j < length (xs @ [a])" by simp
      then have "(xs @ [a]) ! j = ys ! j" using snoc.prems(4) by blast
      then show "xs ! j = ys' ! j" using j ys len by (simp add: nth_append)
    qed
    moreover have "xs ! i \<noteq> ys' ! i" using snoc.prems(3) i ys len by (simp add: nth_append)
    ultimately have "first_smaller (rev xs) (rev ys') \<longleftrightarrow> xs ! i < ys' ! i"
      using snoc.IH[OF len[symmetric] i] by blast
    then show ?thesis using ac ys i len by (simp add: nth_append)
  qed
qed

lemma first_smaller_val:
  assumes "length xs = length ys" "digs b xs" "digs b ys"
  shows "first_smaller (rev xs) (rev ys) \<longleftrightarrow> val b xs < val b ys"
  using assms
proof (induction xs arbitrary: ys rule: rev_induct)
  case Nil
  from Nil.prems(1) show ?case by simp
next
  case (snoc a xs)
  from snoc.prems(1) obtain c ys' where ys: "ys = ys' @ [c]" "length xs = length ys'"
    by (cases ys rule: rev_cases) simp_all
  have dx: "digs b xs" and dy: "digs b ys'" using snoc.prems ys by simp_all
  have ih: "first_smaller (rev xs) (rev ys') \<longleftrightarrow> val b xs < val b ys'"
    using snoc.IH[OF ys(2) dx dy] .
  let ?p = "b ^ length xs"
  have bx: "0 \<le> val b xs" "val b xs < ?p" using val_digs_bounds[OF dx] by simp_all
  have by': "0 \<le> val b ys'" "val b ys' < ?p" using val_digs_bounds[OF dy] ys(2) by simp_all
  have vx: "val b (xs @ [a]) = val b xs + ?p * a" by (simp add: val_append)
  have vy: "val b ys = val b ys' + ?p * c" using ys by (simp add: val_append)
  have p: "0 < ?p" using bx by linarith
  show ?case
  proof (cases "a < c")
    case True
    then have "?p * (a + 1) \<le> ?p * c" using p by (simp add: mult_left_mono)
    then have "val b (xs @ [a]) < val b ys" using vx vy bx by' by (simp add: algebra_simps)
    then show ?thesis using True ys by simp
  next
    case False
    show ?thesis
    proof (cases "c < a")
      case True
      then have "?p * (c + 1) \<le> ?p * a" using p by (simp add: mult_left_mono)
      then have "\<not> val b (xs @ [a]) < val b ys" using vx vy bx by' by (simp add: algebra_simps)
      then show ?thesis using True ys by simp
    next
      case False
      with \<open>\<not> a < c\<close> have "a = c" by simp
      then show ?thesis using ih vx vy ys by simp
    qed
  qed
qed

lemma val_lower_bound:
  assumes "digs b xs" "xs \<noteq> []" "last xs \<noteq> 0"
  shows "b ^ (length xs - 1) \<le> val b xs"
proof -
  from assms(2) obtain ys a where xs: "xs = ys @ [a]" by (cases xs rule: rev_cases) auto
  have a: "1 \<le> a" and dy: "digs b ys" using assms(1,3) xs by simp_all
  have "0 \<le> val b ys" using val_digs_bounds[OF dy] by simp
  moreover have "0 \<le> b ^ length ys" using val_digs_bounds[OF dy] by linarith
  then have "b ^ length ys * 1 \<le> b ^ length ys * a" using a by (rule mult_left_mono[rotated]) 
  ultimately show ?thesis using xs by (simp add: val_append)
qed

lemma longer_val:
  assumes "digs b xs" "digs b ys" "no_leading_zero xs" "length ys < length xs"
  shows "val b ys \<le> val b xs"
proof (cases "length xs > 1")
  case True
  then have ne: "xs \<noteq> []" and l: "last xs \<noteq> 0"
    using assms(3) by (auto simp: no_leading_zero_def)
  have b1: "1 \<le> b" using assms(1) ne by (cases xs) auto
  have "val b ys < b ^ length ys" using val_digs_bounds[OF assms(2)] by simp
  also have "\<dots> \<le> b ^ (length xs - 1)"
    using assms(4) b1 by (intro power_increasing) simp_all
  also have "\<dots> \<le> val b xs" using assms(1) ne l by (rule val_lower_bound)
  finally show ?thesis by simp
next
  case False
  then have "length ys = 0" using assms(4) by linarith
  then show ?thesis using val_digs_bounds[OF assms(1)] by simp
qed

lemma bigger_val:
  assumes "digs b xs" "digs b ys" "no_leading_zero xs" "no_leading_zero ys"
  shows "if swapped xs ys then val b xs \<le> val b ys else val b ys \<le> val b xs"
proof (cases "length xs = length ys")
  case True
  then show ?thesis
    using first_smaller_val[OF True assms(1,2)] by (simp add: swapped_def)
next
  case False
  then consider "length xs < length ys" | "length ys < length xs" by linarith
  then show ?thesis
  proof cases
    case 1
    then show ?thesis using longer_val[OF assms(2,1,4)] by (simp add: swapped_def)
  next
    case 2
    then show ?thesis using longer_val[OF assms(1,2,3)] by (simp add: swapped_def)
  qed
qed

text \<open>
  C9, as amended.  The comparator decides by length first: the longer array comes back
  as the bigger one; at equal length the most significant position where the two differ
  decides, and on full equality the first operand comes back as the bigger.  This is the
  order of the magnitudes the arrays denote when both are digit sequences in range
  without a leading zero; it is not for every pair of digit sequences (see the
  counterexample below).
\<close>

theorem get_bigger_smaller_order:
  "(length (els x) < length (els y) \<longrightarrow> get_bigger_smaller x y = (y, x)) \<and>
   (length (els y) < length (els x) \<longrightarrow> get_bigger_smaller x y = (x, y)) \<and>
   (length (els x) = length (els y) \<and> i < length (els x) \<and> els x ! i \<noteq> els y ! i \<and>
      (\<forall>j. i < j \<and> j < length (els x) \<longrightarrow> els x ! j = els y ! j) \<longrightarrow>
      get_bigger_smaller x y = (if els x ! i < els y ! i then (y, x) else (x, y))) \<and>
   (els x = els y \<longrightarrow> get_bigger_smaller x y = (x, y)) \<and>
   (digs b (els x) \<and> digs b (els y) \<and> no_leading_zero (els x) \<and> no_leading_zero (els y) \<longrightarrow>
      val b (els (snd (get_bigger_smaller x y))) \<le> val b (els (fst (get_bigger_smaller x y))))"
proof (intro conjI impI)
  assume "length (els x) < length (els y)"
  then show "get_bigger_smaller x y = (y, x)"
    by (simp add: get_bigger_smaller_def swapped_def)
next
  assume "length (els y) < length (els x)"
  then show "get_bigger_smaller x y = (x, y)"
    by (simp add: get_bigger_smaller_def swapped_def)
next
  assume a: "length (els x) = length (els y) \<and> i < length (els x) \<and> els x ! i \<noteq> els y ! i \<and>
      (\<forall>j. i < j \<and> j < length (els x) \<longrightarrow> els x ! j = els y ! j)"
  then have "first_smaller (rev (els x)) (rev (els y)) \<longleftrightarrow> els x ! i < els y ! i"
    by (intro first_smaller_index) blast+
  then show "get_bigger_smaller x y = (if els x ! i < els y ! i then (y, x) else (x, y))"
    using a by (simp add: get_bigger_smaller_def swapped_def)
next
  assume "els x = els y"
  then show "get_bigger_smaller x y = (x, y)"
    by (simp add: get_bigger_smaller_def swapped_def)
next
  assume "digs b (els x) \<and> digs b (els y) \<and> no_leading_zero (els x) \<and> no_leading_zero (els y)"
  then show "val b (els (snd (get_bigger_smaller x y))) \<le> val b (els (fst (get_bigger_smaller x y)))"
    using bigger_val[of b "els x" "els y"] by (simp add: get_bigger_smaller_def split: if_splits)
qed

theorem get_bigger_smaller_order_witness:
  "get_bigger_smaller (NDArray Int16 [9]) (NDArray Int16 [0, 1]) = (NDArray Int16 [0, 1], NDArray Int16 [9]) \<and>
   get_bigger_smaller (NDArray Int16 [0, 1]) (NDArray Int16 [9]) = (NDArray Int16 [0, 1], NDArray Int16 [9]) \<and>
   get_bigger_smaller (NDArray Int16 [7, 2, 5]) (NDArray Int16 [1, 3, 5]) =
     (NDArray Int16 [1, 3, 5], NDArray Int16 [7, 2, 5]) \<and>
   get_bigger_smaller (NDArray Int16 [4, 2]) (NDArray Int64 [4, 2]) = (NDArray Int16 [4, 2], NDArray Int64 [4, 2]) \<and>
   val 10 (els (snd (get_bigger_smaller (NDArray Int16 [7, 2, 5]) (NDArray Int16 [1, 3, 5]))))
     \<le> val 10 (els (fst (get_bigger_smaller (NDArray Int16 [7, 2, 5]) (NDArray Int16 [1, 3, 5]))))"
proof -
  have h3: "\<forall>j. (1::nat) < j \<and> j < length (els (NDArray Int16 [7, 2, 5])) \<longrightarrow>
             els (NDArray Int16 [7, 2, 5]) ! j = els (NDArray Int16 [1, 3, 5]) ! j"
  proof (intro allI impI)
    fix j :: nat assume "1 < j \<and> j < length (els (NDArray Int16 [7, 2, 5]))"
    then have "j = 2" by simp
    then show "els (NDArray Int16 [7, 2, 5]) ! j = els (NDArray Int16 [1, 3, 5]) ! j" by simp
  qed
  show ?thesis
    using get_bigger_smaller_order[of "NDArray Int16 [9]" "NDArray Int16 [0, 1]" 0 10]
      get_bigger_smaller_order[of "NDArray Int16 [0, 1]" "NDArray Int16 [9]" 0 10]
      get_bigger_smaller_order[of "NDArray Int16 [7, 2, 5]" "NDArray Int16 [1, 3, 5]" 1 10]
      get_bigger_smaller_order[of "NDArray Int16 [4, 2]" "NDArray Int64 [4, 2]" 0 10]
      h3
    by (simp add: no_leading_zero_def)
qed

text \<open>
  C9 as stated fails: a longer array of zeros is returned as the bigger one, although it
  denotes 0 and the shorter one denotes 99 (such an array is what \<^verbatim>\<open>shift\<close> makes of zero).
\<close>

theorem get_bigger_smaller_magnitude_counterexample:
  "get_bigger_smaller (NDArray Int16 [9, 9]) (NDArray Int16 [0, 0, 0]) =
     (NDArray Int16 [0, 0, 0], NDArray Int16 [9, 9]) \<and>
   val 10 (els (NDArray Int16 [0, 0, 0])) < val 10 (els (NDArray Int16 [9, 9]))"
  by (simp add: get_bigger_smaller_def swapped_def)

section \<open>Fields of constructed values\<close>

lemma init_finish_fields:
  "init_finish num b neg st = Some (Inr v) \<Longrightarrow> store v = st \<and> base v = b"
  by (auto simp: init_finish_def rbind_def split: if_splits Option.bind_splits prod.splits sum.splits)

lemma init_array_fields:
  "init_array x b neg st = Some (Inr v) \<Longrightarrow> store v = st \<and> base v = b"
  unfolding init_array_def by (rule init_finish_fields)

lemma init_int_fields:
  "init_int x b neg st = Some (Inr v) \<Longrightarrow> store v = st \<and> base v = b"
  by (auto simp: init_int_def Let_def rbind_def split: if_splits Option.bind_splits sum.splits
      dest: init_finish_fields)

lemma shift_fields:
  "shift self k = Some (Inr v) \<Longrightarrow> store v = Int16 \<and> base v = base self"
  by (auto simp: shift_def rbind_def split: if_splits Option.bind_splits sum.splits
      dest: init_array_fields init_int_fields)

text \<open>
  C10.  A value returned by \<^verbatim>\<open>__mul__\<close> or by \<^verbatim>\<open>shift\<close> has the default store type
  \<^verbatim>\<open>np.int16\<close>, whatever the operands were configured with; a value returned by
  \<^verbatim>\<open>__add__\<close> or \<^verbatim>\<open>__sub__\<close> has the store type of the left operand.
\<close>

theorem store_of_results:
  "(BaseBigInteger_mul self other = Some (Inr v1) \<longrightarrow> store v1 = Int16) \<and>
   (shift self k = Some (Inr v2) \<longrightarrow> store v2 = Int16) \<and>
   (BaseBigInteger_add self other = Some (Inr v3) \<longrightarrow> store v3 = store self) \<and>
   (BaseBigInteger_sub self other = Some (Inr v4) \<longrightarrow> store v4 = store self)"
proof (intro conjI impI)
  assume "BaseBigInteger_mul self other = Some (Inr v1)"
  then show "store v1 = Int16"
    by (auto simp: BaseBigInteger_mul_def rbind_def split: Option.bind_splits prod.splits sum.splits
        dest: init_array_fields)
next
  assume "shift self k = Some (Inr v2)"
  then show "store v2 = Int16" by (simp add: shift_fields)
next
  assume "BaseBigInteger_add self other = Some (Inr v3)"
  then show "store v3 = store self"
    by (auto simp: BaseBigInteger_add_def rbind_def split: Option.bind_splits prod.splits sum.splits
        dest: init_array_fields)
next
  assume "BaseBigInteger_sub self other = Some (Inr v4)"
  then show "store v4 = store self"
    by (auto simp: BaseBigInteger_sub_def rbind_def split: Option.bind_splits prod.splits sum.splits
        dest: init_array_fields)
qed

definition wide_left :: BaseBigInteger where
  "wide_left = \<lparr>number = NDArray Int32 [5, 2], base = 10, negative = False, store = Int32\<rparr>"

definition wide_right :: BaseBigInteger where
  "wide_right = \<lparr>number = NDArray Int32 [7], base = 10, negative = True, store = Int64\<rparr>"

theorem store_of_results_witness:
  "BaseBigInteger_mul wide_left wide_right =
     Some (Inr \<lparr>number = NDArray Int32 [5, 7, 1], base = 10, negative = True, store = Int16\<rparr>) \<and>
   shift wide_left 2 =
     Some (Inr \<lparr>number = NDArray Int32 [0, 0, 5, 2], base = 10, negative = False, store = Int16\<rparr>) \<and>
   BaseBigInteger_add wide_left wide_right =
     Some (Inr \<lparr>number = NDArray Int32 [8, 1], base = 10, negative = False, store = Int32\<rparr>) \<and>
   BaseBigInteger_sub wide_left wide_right =
     Some (Inr \<lparr>number = NDArray Int32 [2, 3], base = 10, negative = False, store = Int32\<rparr>) \<and>
   store \<lparr>number = NDArray Int32 [5, 7, 1], base = 10, negative = True, store = Int16\<rparr> = Int16 \<and>
   store \<lparr>number = NDArray Int32 [0, 0, 5, 2], base = 10, negative = False, store = Int16\<rparr> = Int16 \<and>
   store \<lparr>number = NDArray Int32 [8, 1], base = 10, negative = False, store = Int32\<rparr> = store wide_left \<and>
   store \<lparr>number = NDArray Int32 [2, 3], base = 10, negative = False, store = Int32\<rparr> = store wide_left"
proof -
  have m: "BaseBigInteger_mul wide_left wide_right =
     Some (Inr \<lparr>number = NDArray Int32 [5, 7, 1], base = 10, negative = True, store = Int16\<rparr>)"
    by code_simp
  have s: "shift wide_left 2 =
     Some (Inr \<lparr>number = NDArray Int32 [0, 0, 5, 2], base = 10, negative = False, store = Int16\<rparr>)"
    by code_simp
  have a: "BaseBigInteger_add wide_left wide_right =
     Some (Inr \<lparr>number = NDArray Int32 [8, 1], base = 10, negative = False, store = Int32\<rparr>)"
    by code_simp
  have d: "BaseBigInteger_sub wide_left wide_right =
     Some (Inr \<lparr>number = NDArray Int32 [2, 3], base = 10, negative = False, store = Int32\<rparr>)"
    by code_simp
  from store_of_results[of wide_left wide_right _ 2] m s a d show ?thesis by blast
qed

section \<open>The normalizer keeps the value of a non-negative sum\<close>

definition room :: "dtype \<Rightarrow> int \<Rightarrow> bool" where
  "room t B \<longleftrightarrow> 0 \<le> B \<and> 2 * B < 2 ^ (bits t - 1)"

definition bounded :: "int \<Rightarrow> int list \<Rightarrow> bool" where
  "bounded B xs = list_all (\<lambda>x. \<bar>x\<bar> \<le> B) xs"

lemma room_fits: "room t B \<Longrightarrow> \<bar>x\<bar> \<le> 2 * B \<Longrightarrow> fits t x"
  by (auto simp: room_def fits_def)

lemma div_abs_bound:
  assumes "2 \<le> b" "\<bar>h\<bar> \<le> 2 * B"
  shows "\<bar>h div b\<bar> \<le> (B::int)"
proof (cases "0 \<le> h")
  case True
  have "h div b \<le> h div 2" using True assms(1) by (intro zdiv_mono2) simp_all
  moreover have "0 \<le> h div b" using True assms(1) by (simp add: pos_imp_zdiv_nonneg_iff)
  ultimately show ?thesis using assms(2) True by linarith
next
  case False
  then have "h div 2 \<le> h div b" using assms(1) by (intro zdiv_mono2_neg) simp_all
  moreover have "h div b < 0" using False assms(1) by (simp add: div_neg_pos_less0)
  ultimately show ?thesis using assms(2) False by linarith
qed

lemma carry_scan_bounded:
  assumes "holds t b" "room t B"
  shows "\<bar>h\<bar> \<le> 2 * B \<Longrightarrow> bounded B xs \<Longrightarrow>
         val b (carry_scan t b (h # xs)) = val b (h # xs) \<and>
         \<bar>last (carry_scan t b (h # xs))\<bar> \<le> 2 * B"
proof (induction xs arbitrary: h)
  case Nil
  then show ?case by simp
next
  case (Cons y zs)
  have b2: "2 \<le> b" using assms(1) by (simp add: holds_def)
  have q: "\<bar>h div b\<bar> \<le> B" using b2 Cons.prems(1) by (rule div_abs_bound)
  have y: "\<bar>y\<bar> \<le> B" and zs: "bounded B zs" using Cons.prems(2) by (simp_all add: bounded_def)
  have B0: "0 \<le> B" using assms(2) by (simp add: room_def)
  have w1: "wrap t (h div b) = h div b"
    using q B0 by (intro wrap_id room_fits[OF assms(2)]) linarith
  have s: "\<bar>y + h div b\<bar> \<le> 2 * B" using q y by linarith
  have w2: "wrap t (y + h div b) = y + h div b"
    using s by (intro wrap_id room_fits[OF assms(2)])
  have w3: "wrap t (h mod b) = h mod b" using assms(1) by (rule wrap_mod)
  from Cons.IH[OF s zs] have
    ih: "val b (carry_scan t b ((y + h div b) # zs)) = val b ((y + h div b) # zs)"
        "\<bar>last (carry_scan t b ((y + h div b) # zs))\<bar> \<le> 2 * B"
    by simp_all
  have ne: "carry_scan t b ((y + h div b) # zs) \<noteq> []" by simp
  have "val b (carry_scan t b (h # y # zs)) =
          h mod b + b * val b ((y + h div b) # zs)"
    using ih(1) by (simp add: w1 w2 w3)
  also have "\<dots> = (h mod b + b * (h div b)) + b * (y + b * val b zs)"
    by (simp add: algebra_simps)
  also have "\<dots> = val b (h # y # zs)" by simp
  finally have v: "val b (carry_scan t b (h # y # zs)) = val b (h # y # zs)" .
  have "last (carry_scan t b (h # y # zs)) = last (carry_scan t b ((y + h div b) # zs))"
    using ne by (simp add: w1 w2 w3)
  with v ih(2) show ?case by simp
qed

lemma carry_scan_value:
  assumes "holds t b" "room t B" "bounded B xs"
  shows "val b (carry_scan t b xs) = val b xs"
proof (cases xs)
  case Nil
  then show ?thesis by simp
next
  case (Cons h ys)
  then have "\<bar>h\<bar> \<le> B" "bounded B ys" using assms(3) by (simp_all add: bounded_def)
  moreover have "0 \<le> B" using assms(2) by (simp add: room_def)
  ultimately show ?thesis using carry_scan_bounded[OF assms(1,2), of h ys] Cons by simp
qed

lemma bounded_fits: "room t B \<Longrightarrow> bounded B xs \<Longrightarrow> list_all (fits t) xs"
  unfolding bounded_def list_all_iff
proof
  fix x assume r: "room t B" and "\<forall>x\<in>set xs. \<bar>x\<bar> \<le> B" and "x \<in> set xs"
  then have "\<bar>x\<bar> \<le> B" by blast
  moreover have "0 \<le> B" using r by (simp add: room_def)
  ultimately show "fits t x" using r by (intro room_fits[of t B]) simp_all
qed

lemma snoc_nonneg:
  assumes "digs b ys" "0 \<le> val b (ys @ [x])"
  shows "0 \<le> x"
proof (rule ccontr)
  assume "\<not> 0 \<le> x"
  then have x: "x \<le> - 1" by simp
  have p: "val b ys < b ^ length ys" "0 \<le> val b ys" using val_digs_bounds[OF assms(1)] by simp_all
  then have "0 \<le> b ^ length ys" by linarith
  then have "b ^ length ys * x \<le> b ^ length ys * (- 1)" using x by (rule mult_left_mono[rotated])
  then have "val b (ys @ [x]) < 0" using p by (simp add: val_append)
  then show False using assms(2) by simp
qed

lemma prop_value:
  assumes "holds t b" "room t B" "bounded B xs" "xs \<noteq> []" "0 \<le> val b xs"
  shows "\<exists>zs. propogate_carryovers st b (NDArray t xs) neg = Some (Inr (NDArray t zs, neg)) \<and>
           zs \<noteq> [] \<and> digs b zs \<and> val b zs = val b xs \<and> length xs \<le> length zs"
proof -
  have fx: "list_all (fits t) xs" using assms(2,3) by (rule bounded_fits)
  have fb: "fits t b" using assms(1) by (rule holds_fits_base)
  from carry_scan_snoc[OF assms(1) fx assms(4)] obtain ys x where
    cs: "carry_scan t b xs = ys @ [x]" "digs b ys" "fits t x" "length ys = length xs - 1"
    by blast
  note unf = prop_unfold[OF fb assms(4), of st neg, unfolded cs(1)]
  have v: "val b (ys @ [x]) = val b xs"
    using carry_scan_value[OF assms(1,2,3)] cs(1) by simp
  have "0 \<le> val b (ys @ [x])" using v assms(5) by simp
  with cs(2) have x0: "0 \<le> x" by (rule snoc_nonneg)
  from carry_up_snoc[OF assms(1) cs(3), of ys] obtain hs where
    hs: "carry_up t b (ys @ [x]) = Some (ys @ hs)" "hs \<noteq> []" "digs b hs" "val b hs = x"
    using x0 by auto
  have "propogate_carryovers st b (NDArray t xs) neg = Some (Inr (NDArray t (ys @ hs), neg))"
    using x0 hs(1) by (simp add: unf fix_top_snoc)
  moreover have "val b (ys @ hs) = val b xs" using v hs(4) by (simp add: val_append)
  moreover have "length xs \<le> length (ys @ hs)" using cs(4) hs(2) by (cases hs) simp_all
  ultimately show ?thesis using hs(2,3) cs(2) by auto
qed

lemma carry_scan_digs: "holds t b \<Longrightarrow> digs b xs \<Longrightarrow> carry_scan t b xs = xs"
proof (induction t b xs rule: carry_scan.induct)
  case (1 t b x y zs)
  have x: "0 \<le> x" "x < b" and y: "0 \<le> y" "y < b" and dz: "digs b zs"
    using "1.prems"(2) by simp_all
  have d0: "x div b = 0" and m0: "x mod b = x" using x by simp_all
  have w0: "wrap t 0 = 0" by (rule wrap_id) (simp add: fits_def)
  have wy: "wrap t y = y" using holds_fits[OF "1.prems"(1) y] by (rule wrap_id)
  have wx: "wrap t x = x" using holds_fits[OF "1.prems"(1) x] by (rule wrap_id)
  have "digs b (y # zs)" using y dz by simp
  then have ih: "carry_scan t b (y # zs) = y # zs"
    using "1.IH" "1.prems"(1) by (simp only: d0 w0 wy add_0_right)
  show ?case by (simp only: carry_scan.simps d0 m0 w0 wy wx add_0_right ih)
qed simp_all

lemma prop_digs:
  assumes "holds t b" "digs b xs" "xs \<noteq> []"
  shows "propogate_carryovers st b (NDArray t xs) neg = Some (Inr (NDArray t xs, neg))"
proof -
  from assms(3) obtain ys x where xs: "xs = ys @ [x]" by (cases xs rule: rev_cases) auto
  have x: "0 \<le> x" "x < b" using assms(2) xs by simp_all
  have fb: "fits t b" using assms(1) by (rule holds_fits_base)
  have cs: "carry_scan t b (ys @ [x]) = ys @ [x]"
    using carry_scan_digs[OF assms(1)] assms(2) xs by simp
  have cu: "carry_up t b (ys @ [x]) = Some (ys @ [x])"
    using x by (subst carry_up.simps) simp
  have ne: "ys @ [x] \<noteq> []" by simp
  have "propogate_carryovers st b (NDArray t (ys @ [x])) neg = Some (Inr (NDArray t (ys @ [x]), neg))"
    using x cu by (simp add: prop_unfold[OF fb ne] cs fix_top_snoc)
  then show ?thesis by (simp only: xs)
qed

lemma strip_leading_id: "no_leading_zero xs \<Longrightarrow> strip_leading xs = xs"
  by (subst strip_leading.simps) (auto simp: no_leading_zero_def)

lemma init_finish_digs:
  assumes "holds (dtype_of a) b" "digs b (els a)" "els a \<noteq> []" "no_leading_zero (els a)"
  shows "init_finish a b neg st = Some (Inr \<lparr>number = a, base = b, negative = neg, store = st\<rparr>)"
proof -
  have "propogate_carryovers st b a neg = Some (Inr (a, neg))"
    using prop_digs[OF assms(1,2,3), of st neg] by simp
  then show ?thesis
    using assms(3,4) by (simp add: init_finish_def strip_leading_id)
qed

section \<open>Representation invariants\<close>

definition value_of :: "BaseBigInteger \<Rightarrow> int" where
  "value_of v =
     (if negative v then - val (base v) (els (number v)) else val (base v) (els (number v)))"

definition inv_nonempty :: "BaseBigInteger \<Rightarrow> bool" where
  "inv_nonempty v \<longleftrightarrow> els (number v) \<noteq> []"

definition inv_digits :: "BaseBigInteger \<Rightarrow> bool" where
  "inv_digits v \<longleftrightarrow> digs (base v) (els (number v))"

definition inv_no_leading_zero :: "BaseBigInteger \<Rightarrow> bool" where
  "inv_no_leading_zero v \<longleftrightarrow> no_leading_zero (els (number v))"

definition inv_zero_sign :: "BaseBigInteger \<Rightarrow> bool" where
  "inv_zero_sign v \<longleftrightarrow> (els (number v) = [0] \<longrightarrow> \<not> negative v)"

definition well_formed :: "int \<Rightarrow> ndarray \<Rightarrow> bool" where
  "well_formed b a \<longleftrightarrow> holds (dtype_of a) b \<and> list_all (fits (dtype_of a)) (els a)"

lemma digs_fits: "holds t b \<Longrightarrow> digs b xs \<Longrightarrow> list_all (fits t) xs"
  unfolding digs_def list_all_iff by (auto intro: holds_fits)

lemma init_finish_invariants:
  assumes "well_formed b a" "els a \<noteq> []"
  shows "\<exists>v. init_finish a b neg st = Some (Inr v) \<and> inv_nonempty v \<and> inv_digits v \<and>
           inv_no_leading_zero v \<and> base v = b \<and> store v = st \<and>
           dtype_of (number v) = dtype_of a"
proof -
  obtain t xs where a: "a = NDArray t xs" by (cases a)
  have h: "holds t b" and f: "list_all (fits t) xs" and ne: "xs \<noteq> []"
    using assms a by (simp_all add: well_formed_def)
  from prop_general[OF h f ne, of st neg] obtain zs neg' where
    p: "propogate_carryovers st b (NDArray t xs) neg = Some (Inr (NDArray t zs, neg'))"
       "zs \<noteq> []" "digs b zs"
    by blast
  let ?v = "\<lparr>number = NDArray t (strip_leading zs), base = b, negative = neg', store = st\<rparr>"
  have "init_finish a b neg st = Some (Inr ?v)"
    using p(1) ne by (simp add: init_finish_def a)
  moreover have "inv_nonempty ?v" "inv_no_leading_zero ?v"
    using strip_leading_props[OF p(2)] by (simp_all add: inv_nonempty_def inv_no_leading_zero_def no_leading_zero_def)
  moreover have "inv_digits ?v"
    using strip_leading_digs[OF p(3)] by (simp add: inv_digits_def)
  ultimately show ?thesis using a by auto
qed

lemma well_formed_zeros: "holds st b \<Longrightarrow> well_formed b (np_zeros n st)"
  by (simp add: well_formed_def np_zeros_def list_all_iff fits_def)

lemma init_array_invariants:
  assumes "well_formed b a" "holds st b"
  shows "\<exists>v. init_array a b neg st = Some (Inr v) \<and> inv_nonempty v \<and> inv_digits v \<and>
           inv_no_leading_zero v \<and> base v = b \<and> store v = st"
proof (cases "els a = []")
  case True
  have "well_formed b (np_zeros 1 st)" using assms(2) by (rule well_formed_zeros)
  moreover have "els (np_zeros 1 st) \<noteq> []" by (simp add: np_zeros_def)
  ultimately show ?thesis
    using init_finish_invariants[of b "np_zeros 1 st" neg st] True by (auto simp: init_array_def)
next
  case False
  then show ?thesis
    using init_finish_invariants[OF assms(1) False, of neg st] by (auto simp: init_array_def)
qed

lemma trim_back_digs: "digs b xs \<Longrightarrow> digs b (trim_back xs)"
  unfolding digs_def list_all_iff trim_back_def by (auto dest: set_dropWhileD)

lemma prop_empty:
  "propogate_carryovers st b (NDArray t []) neg = Some (Inr (np_zeros 1 st, False))"
  by (simp add: propogate_carryovers_def)

lemma trim_back_zeros [simp]: "trim_back (replicate n 0) = []"
  by (simp add: trim_back_def)

lemma add_numbers_well_formed:
  assumes "well_formed b n1" "well_formed b n2" "holds st b"
  shows "\<exists>r neg. add_numbers st b n1 neg1 n2 neg2 = Some (Inr (r, neg)) \<and>
           well_formed b r \<and> digs b (els r)"
proof -
  define bigger where "bigger = (if swapped (els n1) (els n2) then n2 else n1)"
  define smaller where "smaller = (if swapped (els n1) (els n2) then n1 else n2)"
  define tb where "tb = dtype_of bigger"
  define front where "front = map2 (\<lambda>x y. wrap tb (wrap (promote tb (dtype_of smaller))
      (if neg1 = neg2 then x + y else x - y))) (take (length (els smaller)) (els bigger)) (els smaller)"
  define R where "R = front @ drop (length (els smaller)) (els bigger)"
  define sg where "sg = (if swapped (els n1) (els n2) then neg2 else neg1)"
  have gbs: "get_bigger_smaller n1 n2 = (bigger, smaller)"
    by (simp add: get_bigger_smaller_def bigger_def smaller_def)
  have unf: "add_numbers st b n1 neg1 n2 neg2 =
      rbind (propogate_carryovers st b (NDArray tb R) sg)
        (\<lambda>(r, neg). Some (Inr (np_trim_zeros r, neg)))"
    by (simp add: add_numbers_def gbs Let_def tb_def front_def R_def sg_def)
  have wb: "well_formed b bigger" using assms(1,2) by (simp add: bigger_def)
  then have hb: "holds tb b" and fb: "list_all (fits tb) (els bigger)"
    by (simp_all add: well_formed_def tb_def)
  have "list_all (fits tb) front"
    unfolding front_def list_all_iff by (auto simp: fits_wrap)
  moreover have "list_all (fits tb) (drop (length (els smaller)) (els bigger))"
    using fb unfolding list_all_iff by (auto dest: in_set_dropD)
  ultimately have fR: "list_all (fits tb) R" by (simp add: R_def)
  show ?thesis
  proof (cases "R = []")
    case True
    have "add_numbers st b n1 neg1 n2 neg2 = Some (Inr (NDArray st [], False))"
      by (simp add: unf True prop_empty np_trim_zeros_def np_zeros_def trim_back_def)
    moreover have "well_formed b (NDArray st [])" using assms(3) by (simp add: well_formed_def)
    ultimately show ?thesis by auto
  next
    case False
    from prop_general[OF hb fR False, of st sg] obtain zs neg' where
      p: "propogate_carryovers st b (NDArray tb R) sg = Some (Inr (NDArray tb zs, neg'))" "digs b zs"
      by blast
    have d: "digs b (trim_back zs)" using p(2) by (rule trim_back_digs)
    have "add_numbers st b n1 neg1 n2 neg2 = Some (Inr (NDArray tb (trim_back zs), neg'))"
      by (simp add: unf p(1) np_trim_zeros_def)
    moreover have "well_formed b (NDArray tb (trim_back zs))"
      using hb digs_fits[OF hb d] by (simp add: well_formed_def)
    ultimately show ?thesis using d by auto
  qed
qed

section \<open>Strings are decoded without a digit check\<close>













section \<open>A sum of zero can keep a minus sign\<close>

text \<open>
  C2.  The sum of the values made from \<^verbatim>\<open>"-9"\<close> and \<^verbatim>\<open>"9"\<close> in base 10 is the single digit
  zero with the sign of the first operand, and it is rendered as \<^verbatim>\<open>"-0"\<close>: on equal
  magnitudes the comparator returns the first operand as the bigger one, and neither
  \<^verbatim>\<open>_add_numbers\<close> nor \<^verbatim>\<open>__init__\<close> clears the sign of a zero result (the normalizer does
  so only for an empty array).
\<close>

theorem negative_zero_sum:
  "init_str ''-9'' 10 False Int16 =
     Some (Inr \<lparr>number = NDArray Int16 [9], base = 10, negative = True, store = Int16\<rparr>) \<and>
   init_str ''9'' 10 False Int16 =
     Some (Inr \<lparr>number = NDArray Int16 [9], base = 10, negative = False, store = Int16\<rparr>) \<and>
   BaseBigInteger_add
       \<lparr>number = NDArray Int16 [9], base = 10, negative = True, store = Int16\<rparr>
       \<lparr>number = NDArray Int16 [9], base = 10, negative = False, store = Int16\<rparr> =
     Some (Inr \<lparr>number = NDArray Int16 [0], base = 10, negative = True, store = Int16\<rparr>) \<and>
   BaseBigInteger_str \<lparr>number = NDArray Int16 [0], base = 10, negative = True, store = Int16\<rparr> =
     Inr ''-0''"
proof -
  have a: "init_str ''-9'' 10 False Int16 =
     Some (Inr \<lparr>number = NDArray Int16 [9], base = 10, negative = True, store = Int16\<rparr>)"
    by code_simp
  have b: "init_str ''9'' 10 False Int16 =
     Some (Inr \<lparr>number = NDArray Int16 [9], base = 10, negative = False, store = Int16\<rparr>)"
    by code_simp
  have c: "BaseBigInteger_add
       \<lparr>number = NDArray Int16 [9], base = 10, negative = True, store = Int16\<rparr>
       \<lparr>number = NDArray Int16 [9], base = 10, negative = False, store = Int16\<rparr> =
     Some (Inr \<lparr>number = NDArray Int16 [0], base = 10, negative = True, store = Int16\<rparr>)"
    by code_simp
  have d: "BaseBigInteger_str \<lparr>number = NDArray Int16 [0], base = 10, negative = True, store = Int16\<rparr> =
     Inr ''-0''"
    by code_simp
  from a b c d show ?thesis by blast
qed

section \<open>What the normalizer does to the number\<close>






section \<open>Shifting by digits\<close>



lemma val_replicate_zeros: "val b (replicate n 0 @ xs) = b ^ n * val b xs"
  by (induction n) simp_all






section \<open>Rendering and decoding in the bases up to 36\<close>

definition digit_char :: "int \<Rightarrow> char" where
  "digit_char x = (if x < 10 then char_of (48 + nat x) else py_chr (65 + x - 10))"

lemma of_char_int_nat: "(of_char c :: int) = int (of_char c :: nat)"
  by (simp add: of_nat_of_char)

lemma code_low: "0 \<le> x \<Longrightarrow> x < 10 \<Longrightarrow> (of_char (digit_char x) :: nat) = 48 + nat x"
  by (simp add: digit_char_def)

lemma code_high: "10 \<le> x \<Longrightarrow> x < 36 \<Longrightarrow> (of_char (digit_char x) :: nat) = nat (55 + x)"
  by (simp add: digit_char_def py_chr_def)

lemma py_str_digit: "0 \<le> x \<Longrightarrow> x < 10 \<Longrightarrow> py_str x = [digit_char x]"
  by (subst py_str_def, subst str_nat.simps) (simp add: digit_char_def)

lemma digit_char_not_minus: "0 \<le> x \<Longrightarrow> x < 36 \<Longrightarrow> digit_char x \<noteq> CHR ''-''"
proof
  assume a: "0 \<le> x" "x < 36" "digit_char x = CHR ''-''"
  then have "(of_char (digit_char x) :: nat) = 45" by simp
  then show False using a(1,2) code_low[of x] code_high[of x] by (cases "x < 10") simp_all
qed

lemma py_int_char_digit: "0 \<le> x \<Longrightarrow> x < 10 \<Longrightarrow> py_int_char (digit_char x) = Inr x"
  by (simp add: py_int_char_def of_char_int_nat code_low)

lemma py_upper_digit: "0 \<le> x \<Longrightarrow> x < 36 \<Longrightarrow> py_upper (digit_char x) = digit_char x"
  using code_low[of x] code_high[of x] by (cases "x < 10") (auto simp: py_upper_def)

lemma ord_digit_char: "0 \<le> x \<Longrightarrow> x < 36 \<Longrightarrow> ord_digit (digit_char x) = x"
  using code_low[of x] code_high[of x]
  by (cases "x < 10") (simp_all add: ord_digit_def of_char_int_nat)

lemma digs_mono: "digs b xs \<Longrightarrow> b \<le> c \<Longrightarrow> digs c xs"
  unfolding digs_def list_all_iff by auto

lemma render_low: "digs 10 xs \<Longrightarrow> concat (map py_str xs) = map digit_char xs"
  by (induction xs) (simp_all add: py_str_digit)

lemma render_high:
  "digs 36 xs \<Longrightarrow>
     concat (map (\<lambda>x. if x < 10 then py_str x else [py_chr (65 + x - 10)]) xs) = map digit_char xs"
proof (induction xs)
  case Nil
  then show ?case by simp
next
  case (Cons x xs)
  then have x: "0 \<le> x" and ih: "concat (map (\<lambda>x. if x < 10 then py_str x else [py_chr (65 + x - 10)]) xs) = map digit_char xs"
    by simp_all
  have "(if x < 10 then py_str x else [py_chr (65 + x - 10)]) = [digit_char x]"
    using x by (cases "x < 10") (simp_all add: py_str_digit, simp add: digit_char_def)
  with ih show ?case by simp
qed

lemma str_digits:
  assumes "2 \<le> base v" "base v \<le> 36" "digs (base v) (els (number v))"
  shows "BaseBigInteger_str v =
           Inr ((if negative v then [CHR ''-''] else []) @ map digit_char (rev (els (number v))))"
proof (cases "base v \<le> 10")
  case True
  have "digs 10 (rev (els (number v)))" using digs_mono[OF assms(3) True] by (simp add: digs_def)
  then show ?thesis using True by (simp add: BaseBigInteger_str_def render_low)
next
  case False
  have "digs 36 (rev (els (number v)))" using digs_mono[OF assms(3,2)] by (simp add: digs_def)
  then show ?thesis using False assms(2) by (simp add: BaseBigInteger_str_def render_high)
qed

lemma decode_low: "digs 10 xs \<Longrightarrow> py_int_chars (map digit_char xs) = Inr xs"
  by (induction xs) (simp_all add: py_int_char_digit)

lemma decode_high: "digs 36 xs \<Longrightarrow> map ord_digit (map py_upper (map digit_char xs)) = xs"
  by (induction xs) (simp_all add: py_upper_digit ord_digit_char)

lemma no_minus: "digs 36 xs \<Longrightarrow> filter (\<lambda>c. c \<noteq> CHR ''-'') (map digit_char xs) = map digit_char xs"
  by (induction xs) (simp_all add: digit_char_not_minus)

lemma holds_any: "2 \<le> b \<Longrightarrow> b \<le> 36 \<Longrightarrow> holds st b"
  by (cases st) (simp_all add: holds_def fits_def)

lemma init_str_digits:
  assumes "2 \<le> b" "b \<le> 36" "digs b ds" "ds \<noteq> []" "no_leading_zero ds"
  shows "init_str ((if neg then [CHR ''-''] else []) @ map digit_char (rev ds)) b False st =
           Some (Inr \<lparr>number = NDArray st ds, base = b, negative = neg, store = st\<rparr>)"
proof -
  let ?body = "map digit_char (rev ds)"
  have h: "holds st b" using assms(1,2) by (rule holds_any)
  have d36: "digs 36 ds" using assms(3,2) by (rule digs_mono)
  then have r36: "digs 36 (rev ds)" by (simp add: digs_def)
  have fin: "init_finish (NDArray st ds) b neg st =
               Some (Inr \<lparr>number = NDArray st ds, base = b, negative = neg, store = st\<rparr>)"
    using init_finish_digs[of "NDArray st ds" b neg st] h assms(3,4,5) by simp
  obtain c cs where body: "?body = c # cs" using assms(4) by (cases ?body) auto
  have "c \<in> set ?body" using body by simp
  then obtain x where x: "x \<in> set ds" "c = digit_char x" by auto
  then have "0 \<le> x" "x < 36" using d36 by (auto simp: digs_def list_all_iff)
  then have c: "c \<noteq> CHR ''-''" unfolding x(2) by (rule digit_char_not_minus)
  have nm: "filter (\<lambda>c. c \<noteq> CHR ''-'') ?body = ?body" using r36 by (rule no_minus)
  have len: "\<not> length ?body < 1" using assms(4) by (cases ds) simp_all
  have dec: "b \<le> 10 \<Longrightarrow> py_int_chars (rev ?body) = Inr ds"
  proof -
    assume "b \<le> 10"
    with assms(3) have "digs 10 ds" by (rule digs_mono)
    then show ?thesis by (simp add: rev_map decode_low)
  qed
  have dech: "map ord_digit (rev (map py_upper ?body)) = ds"
    using decode_high[OF d36] by (simp add: rev_map)
  have fits: "list_all (fits st) ds" using h assms(3) by (rule digs_fits)
  define F where "F = (\<lambda>n0 x. if length x < 1 then init_finish (np_zeros 1 st) b n0 st
             else if b \<le> 10 then
               (case py_int_chars (rev x) of
                  Inl e \<Rightarrow> Some (Inl e)
                | Inr ds \<Rightarrow> init_finish (NDArray st ds) b n0 st)
             else
               (let ds = map ord_digit (rev (map py_upper x))
                in if list_all (fits st) ds then init_finish (NDArray st ds) b n0 st
                   else Some (Inl OverflowError)))"
  have unf: "\<And>c0 r. init_str (c0 # r) b False st =
      F (if c0 = CHR ''-'' then True else False)
        (if c0 = CHR ''-'' then filter (\<lambda>c. c \<noteq> CHR ''-'') (c0 # r) else c0 # r)"
    unfolding init_str_def F_def Let_def list.case by (rule refl)
  have core: "\<And>n0. F n0 ?body = init_finish (NDArray st ds) b n0 st"
    unfolding F_def using len dec dech fits by (simp add: Let_def)
  show ?thesis
  proof (cases neg)
    case True
    have "filter (\<lambda>c. c \<noteq> CHR ''-'') (CHR ''-'' # ?body) = ?body" using nm by simp
    then have "init_str (CHR ''-'' # ?body) b False st = init_finish (NDArray st ds) b True st"
      using core[of True] by (simp add: unf)
    then show ?thesis using True fin by simp
  next
    case False
    have "init_str (c # cs) b False st = F False (c # cs)"
      using c by (simp add: unf)
    then have "init_str (c # cs) b False st = init_finish (NDArray st ds) b False st"
      using core[of False] body by simp
    then show ?thesis using False fin body by simp
  qed
qed

section \<open>The digits of an integer\<close>

lemma promote_Int64 [simp]: "promote t Int64 = Int64"
  by (cases t) (simp_all add: promote_def)

lemma int_digits_spec:
  assumes "holds Int64 b"
  shows "0 \<le> x \<Longrightarrow> fits Int64 x \<Longrightarrow> holds (dtype_of num) b \<Longrightarrow> els num = pre @ [l] \<Longrightarrow>
         (x < b \<longrightarrow> l = x) \<Longrightarrow>
         \<exists>t' hs. int_digits b num x = Some (Inr (NDArray t' (pre @ hs))) \<and> hs \<noteq> [] \<and>
            digs b hs \<and> val b hs = x \<and> (x \<noteq> 0 \<longrightarrow> last hs \<noteq> 0) \<and> (x < b \<longrightarrow> hs = [x]) \<and>
            holds t' b"
proof (induction "nat x" arbitrary: x num pre l rule: less_induct)
  case less
  show ?case
  proof (cases "x < b")
    case True
    have "int_digits b num x = Some (Inr num)"
      using True by (subst int_digits.simps) simp
    moreover have "num = NDArray (dtype_of num) (pre @ [x])"
      using less.prems(4,5) True by (cases num) simp
    ultimately have "int_digits b num x = Some (Inr (NDArray (dtype_of num) (pre @ [x])))"
      by simp
    then show ?thesis using True less.prems(1,3) by auto
  next
    case False
    have b2: "2 \<le> b" using assms by (simp add: holds_def)
    have xb: "b \<le> x" "0 < x" using False b2 by simp_all
    have q: "0 < x div b" "x div b < x"
      using xb b2 by (simp_all add: pos_imp_zdiv_pos_iff int_div_less_self)
    have fm: "fits (dtype_of num) (x mod b)"
      using less.prems(3) b2 by (intro holds_fits[of _ b]) simp_all
    have fq: "fits Int64 (x div b)" using q less.prems(2) by (simp add: fits_def)
    let ?num = "np_append (set_last num (x mod b)) (NDArray Int64 [x div b])"
    have step: "int_digits b num x = int_digits b ?num (x div b)"
      using xb fm fq by (subst int_digits.simps) simp
    have e: "els ?num = (pre @ [x mod b]) @ [x div b]"
      using less.prems(4) by (simp add: np_append_def set_last_def)
    have t: "dtype_of ?num = Int64" by (simp add: np_append_def)
    have "nat (x div b) < nat x" using q by simp
    from less.hyps[OF this _ fq _ e] obtain t' hs where
      hs: "int_digits b ?num (x div b) = Some (Inr (NDArray t' ((pre @ [x mod b]) @ hs)))"
        "hs \<noteq> []" "digs b hs" "val b hs = x div b" "last hs \<noteq> 0" "holds t' b"
      using q assms t by auto
    have "int_digits b num x = Some (Inr (NDArray t' (pre @ (x mod b # hs))))"
      using step hs(1) by simp
    moreover have "val b (x mod b # hs) = x" using hs(4) by simp
    moreover have "digs b (x mod b # hs)" using hs(3) b2 by simp
    moreover have "last (x mod b # hs) \<noteq> 0" using hs(2,5) by simp
    ultimately show ?thesis using False hs(6) by blast
  qed
qed

lemma init_int_spec:
  assumes "holds st b" "holds Int64 b" "\<bar>n\<bar> < 2 ^ 63"
  shows "\<exists>t' hs. init_int n b False st =
            Some (Inr \<lparr>number = NDArray t' hs, base = b, negative = (n < 0), store = st\<rparr>) \<and>
          hs \<noteq> [] \<and> digs b hs \<and> no_leading_zero hs \<and> val b hs = \<bar>n\<bar> \<and> holds t' b"
proof -
  define x where "x = \<bar>n\<bar>"
  have b2: "2 \<le> b" using assms(1) by (simp add: holds_def)
  have x0: "0 \<le> x" and fx: "fits Int64 x" using assms(3) by (simp_all add: x_def fits_def)
  have fm: "fits st (x mod b)" using assms(1) b2 by (intro holds_fits[of _ b]) simp_all
  have l: "x < b \<longrightarrow> x mod b = x" using x0 by simp
  from int_digits_spec[OF assms(2) x0 fx, of "NDArray st [x mod b]" "[]" "x mod b"] assms(1) l
  obtain t' hs where
    hs: "int_digits b (NDArray st [x mod b]) x = Some (Inr (NDArray t' hs))" "hs \<noteq> []"
      "digs b hs" "val b hs = x" "x \<noteq> 0 \<longrightarrow> last hs \<noteq> 0" "x < b \<longrightarrow> hs = [x]" "holds t' b"
    by auto
  have nl: "no_leading_zero hs"
  proof (cases "x = 0")
    case True
    then have "hs = [x]" using hs(6) b2 by simp
    then show ?thesis by (simp add: no_leading_zero_def)
  next
    case False
    then show ?thesis using hs(5) by (simp add: no_leading_zero_def)
  qed
  have fin: "init_finish (NDArray t' hs) b (n < 0) st =
      Some (Inr \<lparr>number = NDArray t' hs, base = b, negative = (n < 0), store = st\<rparr>)"
    using init_finish_digs[of "NDArray t' hs" b "n < 0" st] hs(2,3,7) nl by simp
  have "init_int n b False st =
      Some (Inr \<lparr>number = NDArray t' hs, base = b, negative = (n < 0), store = st\<rparr>)"
  proof (cases "n < 0")
    case True
    then have "x = - n" by (simp add: x_def)
    then show ?thesis using True fm hs(1) fin by (simp add: init_int_def)
  next
    case False
    then have "x = n" by (simp add: x_def)
    then show ?thesis using False fm hs(1) fin by (simp add: init_int_def)
  qed
  then show ?thesis using hs(2,3,4,7) nl by (auto simp: x_def)
qed

text \<open>
  C6, as amended.  For every base from 2 to 36, every store type and every integer of
  magnitude below 2 to the power 63: the constructor returns a value that denotes the integer, the
  value is rendered as a string, and decoding that string in the same base with the same
  store type returns a value with the same digits, sign, base and store type.
\<close>

theorem round_trip:
  assumes "2 \<le> b" "b \<le> 36" "\<bar>n\<bar> < 2 ^ 63"
  shows "\<exists>v s v'. init_int n b False st = Some (Inr v) \<and> value_of v = n \<and>
           BaseBigInteger_str v = Inr s \<and>
           init_str s b False st = Some (Inr v') \<and>
           els (number v') = els (number v) \<and> negative v' = negative v \<and>
           base v' = base v \<and> store v' = store v"
proof -
  have h: "holds st b" "holds Int64 b" using assms(1,2) by (rule holds_any)+
  from init_int_spec[OF h assms(3)] obtain t' hs where
    v: "init_int n b False st =
            Some (Inr \<lparr>number = NDArray t' hs, base = b, negative = (n < 0), store = st\<rparr>)"
       "hs \<noteq> []" "digs b hs" "no_leading_zero hs" "val b hs = \<bar>n\<bar>"
    by blast
  let ?v = "\<lparr>number = NDArray t' hs, base = b, negative = (n < 0), store = st\<rparr>"
  let ?s = "(if n < 0 then [CHR ''-''] else []) @ map digit_char (rev hs)"
  let ?w = "\<lparr>number = NDArray st hs, base = b, negative = (n < 0), store = st\<rparr>"
  have "value_of ?v = n" using v(5) by (simp add: value_of_def)
  moreover have "BaseBigInteger_str ?v = Inr ?s"
    using str_digits[of ?v] assms(1,2) v(3) by simp
  moreover have "init_str ?s b False st = Some (Inr ?w)"
    using assms(1,2) v(3,2,4) by (rule init_str_digits)
  ultimately show ?thesis using v(1) by (intro exI[of _ ?v] exI[of _ ?s] exI[of _ ?w]) simp
qed

theorem round_trip_witness:
  "\<exists>v s v'. init_int (- 255) 16 False Int16 = Some (Inr v) \<and> value_of v = - 255 \<and>
           BaseBigInteger_str v = Inr s \<and>
           init_str s 16 False Int16 = Some (Inr v') \<and>
           els (number v') = els (number v) \<and> negative v' = negative v \<and>
           base v' = base v \<and> store v' = store v"
  using round_trip[of 16 "- 255" Int16] by simp

text \<open>
  C6 as stated fails: in base 1000 the integer 1234 has the digits 234 and 1 and is
  rendered as \<^verbatim>\<open>"1234"\<close>; the decoder takes every character of that string as one digit
  and returns four digits.
\<close>

theorem round_trip_base_1000_counterexample:
  "init_int 1234 1000 False Int16 =
     Some (Inr \<lparr>number = NDArray Int64 [234, 1], base = 1000, negative = False, store = Int16\<rparr>) \<and>
   BaseBigInteger_str
     \<lparr>number = NDArray Int64 [234, 1], base = 1000, negative = False, store = Int16\<rparr> =
     Inr ''1234'' \<and>
   init_str ''1234'' 1000 False Int16 =
     Some (Inr \<lparr>number = NDArray Int16 [4, 3, 2, 1], base = 1000, negative = False, store = Int16\<rparr>)"
proof -
  have a: "init_int 1234 1000 False Int16 =
     Some (Inr \<lparr>number = NDArray Int64 [234, 1], base = 1000, negative = False, store = Int16\<rparr>)"
    by code_simp
  have b: "BaseBigInteger_str
     \<lparr>number = NDArray Int64 [234, 1], base = 1000, negative = False, store = Int16\<rparr> =
     Inr ''1234''"
    by code_simp
  have c: "init_str ''1234'' 1000 False Int16 =
     Some (Inr \<lparr>number = NDArray Int16 [4, 3, 2, 1], base = 1000, negative = False, store = Int16\<rparr>)"
    by code_simp
  from a b c show ?thesis by blast
qed

section \<open>What addition and subtraction of digit arrays denote\<close>

definition cap :: "dtype \<Rightarrow> int \<Rightarrow> bool" where
  "cap t b \<longleftrightarrow> holds t b \<and> room t (b * b)"

definition trimmed :: "int list \<Rightarrow> bool" where
  "trimmed xs \<longleftrightarrow> xs = [] \<or> last xs \<noteq> 0"

lemma trim_back_snoc: "trim_back (xs @ [x]) = (if x = 0 then trim_back xs else xs @ [x])"
  by (simp add: trim_back_def)

lemma trim_back_Nil [simp]: "trim_back [] = []"
  by (simp add: trim_back_def)

lemma trim_back_val: "val b (trim_back xs) = val b xs"
  by (induction xs rule: rev_induct) (simp_all add: trim_back_snoc val_append)

lemma trim_back_trimmed: "trimmed (trim_back xs)"
  by (induction xs rule: rev_induct) (simp_all add: trim_back_snoc trimmed_def)

lemma val_zip_plus:
  "length ys \<le> length xs \<Longrightarrow>
     val b (map2 (\<lambda>x y. x + y) (take (length ys) xs) ys @ drop (length ys) xs) = val b xs + val b ys"
proof (induction ys arbitrary: xs)
  case Nil
  then show ?case by simp
next
  case (Cons y ys)
  then obtain x xs' where xs: "xs = x # xs'" by (cases xs) auto
  with Cons show ?case by (simp add: algebra_simps)
qed

lemma val_zip_minus:
  "length ys \<le> length xs \<Longrightarrow>
     val b (map2 (\<lambda>x y. x - y) (take (length ys) xs) ys @ drop (length ys) xs) = val b xs - val b ys"
proof (induction ys arbitrary: xs)
  case Nil
  then show ?case by simp
next
  case (Cons y ys)
  then obtain x xs' where xs: "xs = x # xs'" by (cases xs) auto
  have ih: "val b (map2 (\<lambda>x y. x - y) (take (length ys) xs') ys @ drop (length ys) xs') =
              val b xs' - val b ys"
    using Cons.IH[of xs'] Cons.prems xs by simp
  show ?case unfolding xs by (simp add: ih right_diff_distrib)
qed

lemma square_bound: "(2::int) \<le> b \<Longrightarrow> 2 * b \<le> b * b"
  by (simp add: mult_right_mono)

lemma map2_wrap:
  assumes "room t B" "room tp B"
    and "\<And>x y. x \<in> set xs \<Longrightarrow> y \<in> set ys \<Longrightarrow> \<bar>f x y\<bar> \<le> B"
  shows "map2 (\<lambda>x y. wrap t (wrap tp (f x y))) xs ys = map2 f xs ys"
proof (rule map_cong[OF refl])
  fix p assume "p \<in> set (zip xs ys)"
  then have "fst p \<in> set xs" "snd p \<in> set ys"
    by (metis prod.collapse set_zip_leftD, metis prod.collapse set_zip_rightD)
  then obtain x y where p: "p = (x, y)" "x \<in> set xs" "y \<in> set ys"
    by (cases p) simp
  have B: "\<bar>f x y\<bar> \<le> B" using p(2,3) by (rule assms(3))
  have B0: "0 \<le> B" using assms(1) by (simp add: room_def)
  have "fits tp (f x y)" using B B0 by (intro room_fits[OF assms(2)]) linarith
  then have 1: "wrap tp (f x y) = f x y" by (rule wrap_id)
  have "fits t (f x y)" using B B0 by (intro room_fits[OF assms(1)]) linarith
  then have 2: "wrap t (f x y) = f x y" by (rule wrap_id)
  show "(case p of (x, y) \<Rightarrow> wrap t (wrap tp (f x y))) = (case p of (x, y) \<Rightarrow> f x y)"
    by (simp add: p(1) 1 2)
qed

lemma cap_promote: "cap s b \<Longrightarrow> cap t b \<Longrightarrow> cap (promote s t) b"
  by (simp add: promote_def)

lemma digs_set: "digs b xs \<Longrightarrow> x \<in> set xs \<Longrightarrow> 0 \<le> x \<and> x < b"
  by (simp add: digs_def list_all_iff)

lemma bounded_append: "bounded B (xs @ ys) \<longleftrightarrow> bounded B xs \<and> bounded B ys"
  by (simp add: bounded_def)

lemma digs_bounded: "digs b xs \<Longrightarrow> b \<le> B \<Longrightarrow> bounded B xs"
  unfolding digs_def bounded_def list_all_iff by auto

lemma map2_bounded:
  assumes "\<And>x y. x \<in> set xs \<Longrightarrow> y \<in> set ys \<Longrightarrow> \<bar>f x y\<bar> \<le> B"
  shows "bounded B (map2 f xs ys)"
  unfolding bounded_def list_all_iff
proof
  fix z assume "z \<in> set (map2 f xs ys)"
  then obtain x y where "(x, y) \<in> set (zip xs ys)" "z = f x y" by auto
  then show "\<bar>z\<bar> \<le> B" using assms by (auto dest: set_zip_leftD set_zip_rightD)
qed

lemma add_numbers_value:
  assumes "digs b (els n1)" "digs b (els n2)" "cap (dtype_of n1) b" "cap (dtype_of n2) b" "cap st b"
    and "neg1 \<noteq> neg2 \<Longrightarrow>
           val b (els (snd (get_bigger_smaller n1 n2))) \<le> val b (els (fst (get_bigger_smaller n1 n2)))"
  shows "\<exists>r neg. add_numbers st b n1 neg1 n2 neg2 = Some (Inr (r, neg)) \<and>
           (neg = (if swapped (els n1) (els n2) then neg2 else neg1) \<or> (els r = [] \<and> \<not> neg)) \<and>
           digs b (els r) \<and> trimmed (els r) \<and> cap (dtype_of r) b \<and>
           val b (els r) =
             (if neg1 = neg2 then val b (els n1) + val b (els n2)
              else val b (els (fst (get_bigger_smaller n1 n2))) -
                   val b (els (snd (get_bigger_smaller n1 n2))))"
proof -
  define bigger where "bigger = (if swapped (els n1) (els n2) then n2 else n1)"
  define smaller where "smaller = (if swapped (els n1) (els n2) then n1 else n2)"
  define tb where "tb = dtype_of bigger"
  define tp where "tp = promote tb (dtype_of smaller)"
  define f where "f = (\<lambda>x y :: int. if neg1 = neg2 then x + y else x - y)"
  define k where "k = length (els smaller)"
  define front where "front = map2 (\<lambda>x y. wrap tb (wrap tp (f x y))) (take k (els bigger)) (els smaller)"
  define R where "R = front @ drop k (els bigger)"
  define sg where "sg = (if swapped (els n1) (els n2) then neg2 else neg1)"
  have gbs: "get_bigger_smaller n1 n2 = (bigger, smaller)"
    by (simp add: get_bigger_smaller_def bigger_def smaller_def)
  have unf: "add_numbers st b n1 neg1 n2 neg2 =
      rbind (propogate_carryovers st b (NDArray tb R) sg)
        (\<lambda>(r, neg). Some (Inr (np_trim_zeros r, neg)))"
    by (simp add: add_numbers_def gbs Let_def tb_def tp_def f_def front_def R_def sg_def k_def)
  have len: "k \<le> length (els bigger)"
    by (auto simp: k_def bigger_def smaller_def swapped_def)
  have db: "digs b (els bigger)" and ds: "digs b (els smaller)"
    using assms(1,2) by (simp_all add: bigger_def smaller_def)
  have cb: "cap tb b" using assms(3,4) by (simp add: tb_def bigger_def)
  have cs: "cap (dtype_of smaller) b" using assms(3,4) by (simp add: smaller_def)
  have cp: "cap tp b" unfolding tp_def using cb cs by (rule cap_promote)
  have hb: "holds tb b" and rb: "room tb (b * b)" using cb by (simp_all add: cap_def)
  have rp: "room tp (b * b)" using cp by (simp add: cap_def)
  have b2: "2 \<le> b" using hb by (simp add: holds_def)
  have sq: "2 * b \<le> b * b" using b2 by (rule square_bound)
  have fb: "\<bar>f x y\<bar> \<le> b * b" if "x \<in> set (take k (els bigger))" "y \<in> set (els smaller)" for x y
  proof -
    have "x \<in> set (els bigger)" using that(1) by (rule in_set_takeD)
    then have x: "0 \<le> x" "x < b" using digs_set[OF db] by simp_all
    have y: "0 \<le> y" "y < b" using digs_set[OF ds that(2)] by simp_all
    have "\<bar>f x y\<bar> \<le> 2 * b" using x y by (auto simp: f_def)
    then show ?thesis using sq by linarith
  qed
  have fr: "front = map2 f (take k (els bigger)) (els smaller)"
    unfolding front_def using rb rp fb by (rule map2_wrap)
  have vR: "val b R = (if neg1 = neg2 then val b (els bigger) + val b (els smaller)
                      else val b (els bigger) - val b (els smaller))"
  proof (cases "neg1 = neg2")
    case True
    then have "f = (\<lambda>x y. x + y)" by (simp add: f_def)
    then show ?thesis using val_zip_plus[of "els smaller" "els bigger" b] len True
      by (simp add: R_def fr k_def)
  next
    case False
    then have "f = (\<lambda>x y. x - y)" by (simp add: f_def)
    then show ?thesis using val_zip_minus[of "els smaller" "els bigger" b] len False
      by (simp add: R_def fr k_def)
  qed
  have nn: "0 \<le> val b R"
  proof (cases "neg1 = neg2")
    case True
    then show ?thesis using val_digs_bounds[OF db] val_digs_bounds[OF ds] by (simp add: vR)
  next
    case False
    then show ?thesis using assms(6) by (simp add: vR gbs)
  qed
  have "bounded (b * b) front" unfolding fr using fb by (rule map2_bounded)
  moreover have "bounded (b * b) (drop k (els bigger))"
  proof (rule digs_bounded)
    show "digs b (drop k (els bigger))" using db by (metis append_take_drop_id digs_append)
    show "b \<le> b * b" using sq b2 by linarith
  qed
  ultimately have bR: "bounded (b * b) R" by (simp add: R_def bounded_append)
  define V where "V = (if neg1 = neg2 then val b (els n1) + val b (els n2)
              else val b (els (fst (get_bigger_smaller n1 n2))) -
                   val b (els (snd (get_bigger_smaller n1 n2))))"
  have "val b (els bigger) + val b (els smaller) = val b (els n1) + val b (els n2)"
    by (simp add: bigger_def smaller_def)
  then have vV: "val b R = V" unfolding V_def vR gbs by simp
  have "\<exists>r neg. add_numbers st b n1 neg1 n2 neg2 = Some (Inr (r, neg)) \<and>
           (neg = sg \<or> (els r = [] \<and> \<not> neg)) \<and>
           digs b (els r) \<and> trimmed (els r) \<and> cap (dtype_of r) b \<and> val b (els r) = V"
  proof (cases "R = []")
    case True
    let ?r = "NDArray st []"
    have "add_numbers st b n1 neg1 n2 neg2 = Some (Inr (?r, False))"
      by (simp add: unf True prop_empty np_trim_zeros_def np_zeros_def trim_back_def)
    moreover have "els ?r = [] \<and> \<not> False" by simp
    moreover have "digs b (els ?r)" "trimmed (els ?r)" by (simp_all add: trimmed_def)
    moreover have "cap (dtype_of ?r) b" using assms(5) by simp
    moreover have "val b (els ?r) = V" using vV True by simp
    ultimately show ?thesis by blast
  next
    case False
    from prop_value[OF hb rb bR False nn, of st sg] obtain zs where
      p: "propogate_carryovers st b (NDArray tb R) sg = Some (Inr (NDArray tb zs, sg))"
         "digs b zs" "val b zs = val b R"
      by blast
    let ?r = "NDArray tb (trim_back zs)"
    have "add_numbers st b n1 neg1 n2 neg2 = Some (Inr (?r, sg))"
      by (simp add: unf p(1) np_trim_zeros_def)
    moreover have "digs b (els ?r)" using p(2) by (simp add: trim_back_digs)
    moreover have "trimmed (els ?r)" by (simp add: trim_back_trimmed)
    moreover have "val b (els ?r) = V" using p(3) vV by (simp add: trim_back_val)
    moreover have "cap (dtype_of ?r) b" using cb by simp
    ultimately show ?thesis by blast
  qed
  then show ?thesis unfolding V_def sg_def .
qed

section \<open>What the Karatsuba multiplier denotes\<close>

definition good :: "int \<Rightarrow> ndarray \<Rightarrow> bool" where
  "good b a \<longleftrightarrow> digs b (els a) \<and> cap (dtype_of a) b"

lemma val_split: "val b xs = val b (take m xs) + b ^ m * val b (drop m xs)"
proof (cases "m \<le> length xs")
  case True
  have "val b (take m xs @ drop m xs) = val b (take m xs) + b ^ length (take m xs) * val b (drop m xs)"
    by (rule val_append)
  then show ?thesis using True by simp
next
  case False
  then show ?thesis by simp
qed

lemma digs_take: "digs b xs \<Longrightarrow> digs b (take m xs)"
  by (metis append_take_drop_id digs_append)

lemma digs_drop: "digs b xs \<Longrightarrow> digs b (drop m xs)"
  by (metis append_take_drop_id digs_append)

lemma digs_zeros: "0 < b \<Longrightarrow> digs b (replicate n 0)"
  by (simp add: digs_def list_all_iff)

lemma trimmed_length:
  assumes "digs b xs" "trimmed xs" "val b xs < b ^ k" "1 \<le> b"
  shows "length xs \<le> k"
proof (rule ccontr)
  assume "\<not> length xs \<le> k"
  then have l: "k \<le> length xs - 1" and ne: "xs \<noteq> []" by auto
  then have "last xs \<noteq> 0" using assms(2) by (simp add: trimmed_def)
  with assms(1) ne have "b ^ (length xs - 1) \<le> val b xs" by (rule val_lower_bound)
  moreover have "b ^ k \<le> b ^ (length xs - 1)" using l assms(4) by (intro power_increasing) simp_all
  ultimately show False using assms(3) by linarith
qed

lemma not_swapped:
  assumes "digs b xs" "digs b ys" "trimmed ys" "val b ys \<le> val b xs"
  shows "\<not> swapped xs ys"
proof
  assume "swapped xs ys"
  then consider "length xs < length ys" | "length xs = length ys" "first_smaller (rev xs) (rev ys)"
    by (auto simp: swapped_def)
  then show False
  proof cases
    case 1
    then have ne: "ys \<noteq> []" by auto
    then have b1: "1 \<le> b" using assms(2) by (cases ys) auto
    have "val b xs < b ^ length xs" using val_digs_bounds[OF assms(1)] by simp
    then have "val b ys < b ^ length xs" using assms(4) by linarith
    with assms(2,3) have "length ys \<le> length xs" using b1 by (rule trimmed_length)
    with 1 show False by simp
  next
    case 2
    then have "val b xs < val b ys" using first_smaller_val[OF 2(1) assms(1,2)] by simp
    with assms(4) show False by simp
  qed
qed

lemma val_map_times: "val b (map (\<lambda>x. x * s) xs) = val b xs * s"
  by (induction xs) (simp_all add: algebra_simps)

lemma good_zeros: "cap st b \<Longrightarrow> good b (np_zeros n st)"
  by (simp add: good_def np_zeros_def cap_def holds_def digs_def list_all_iff)

lemma good_append: "good b x \<Longrightarrow> good b y \<Longrightarrow> good b (np_append x y)"
  by (simp add: good_def np_append_def cap_promote)

lemma val_np_append_zeros:
  "val b (els (np_append (np_zeros n st) x)) = b ^ n * val b (els x)"
  by (simp add: np_append_def np_zeros_def val_replicate_zeros)

lemma scale_value:
  assumes "good b a" "cap ts b" "cap st b" "0 \<le> s" "s < b"
  shows "\<exists>r. propogate_carryovers st b (np_scale a ts s) False = Some (Inr (r, False)) \<and>
           good b r \<and> val b (els r) = val b (els a) * s"
proof -
  define t where "t = promote (dtype_of a) ts"
  have ct: "cap t b" unfolding t_def using assms(1,2) by (simp add: good_def cap_promote)
  then have h: "holds t b" and r: "room t (b * b)" by (simp_all add: cap_def)
  have d: "digs b (els a)" using assms(1) by (simp add: good_def)
  have b0: "0 \<le> b * b" by simp
  have bd: "\<bar>x * s\<bar> \<le> b * b" if "x \<in> set (els a)" for x
  proof -
    have x: "0 \<le> x" "x < b" using digs_set[OF d that] by simp_all
    then have "x * s \<le> b * b" using assms(4,5) by (intro mult_mono) simp_all
    moreover have "0 \<le> x * s" using x(1) assms(4) by simp
    ultimately show ?thesis by simp
  qed
  have "map (\<lambda>x. wrap t (x * s)) (els a) = map (\<lambda>x. x * s) (els a)"
  proof (rule map_cong[OF refl])
    fix x assume "x \<in> set (els a)"
    then have "\<bar>x * s\<bar> \<le> 2 * (b * b)" using bd[of x] b0 by linarith
    then have "fits t (x * s)" by (rule room_fits[OF r])
    then show "wrap t (x * s) = x * s" by (rule wrap_id)
  qed
  then have sc: "np_scale a ts s = NDArray t (map (\<lambda>x. x * s) (els a))"
    by (simp add: np_scale_def t_def Let_def)
  show ?thesis
  proof (cases "els a = []")
    case True
    have "propogate_carryovers st b (np_scale a ts s) False = Some (Inr (np_zeros 1 st, False))"
      by (simp add: sc True prop_empty)
    moreover have "good b (np_zeros 1 st)" using assms(3) by (rule good_zeros)
    moreover have "val b (els (np_zeros 1 st)) = val b (els a) * s"
      by (simp add: True np_zeros_def)
    ultimately show ?thesis by blast
  next
    case False
    let ?xs = "map (\<lambda>x. x * s) (els a)"
    have ne: "?xs \<noteq> []" using False by simp
    have bnd: "bounded (b * b) ?xs" unfolding bounded_def list_all_iff using bd by auto
    have "0 \<le> val b (els a)" using val_digs_bounds[OF d] by simp
    then have nn: "0 \<le> val b ?xs" using assms(4) by (simp add: val_map_times)
    from prop_value[OF h r bnd ne nn, of st False] obtain zs where
      z: "propogate_carryovers st b (NDArray t ?xs) False = Some (Inr (NDArray t zs, False))"
         "digs b zs" "val b zs = val b ?xs"
      by blast
    have "propogate_carryovers st b (np_scale a ts s) False = Some (Inr (NDArray t zs, False))"
      using z(1) by (simp only: sc)
    moreover have "good b (NDArray t zs)" using z(2) ct by (simp add: good_def)
    moreover have "val b (els (NDArray t zs)) = val b (els a) * s"
      using z(3) by (simp add: val_map_times)
    ultimately show ?thesis by blast
  qed
qed

definition karatsuba_step ::
  "dtype \<Rightarrow> int \<Rightarrow> ndarray \<Rightarrow> ndarray \<Rightarrow> (error + ndarray \<times> bool) option" where
  "karatsuba_step st bs first second =
     (let m = length (els first) div 2;
          b = np_trim_zeros (slice_to m first);
          a = slice_from m first;
          d = np_trim_zeros (slice_to m second);
          c = slice_from m second
      in
      rbind (multiply_numbers st bs a c) (\<lambda>(z2, z2neg).
      rbind (multiply_numbers st bs b d) (\<lambda>(z0, z0neg).
      rbind (add_numbers st bs a False b False) (\<lambda>(ab, abneg).
      rbind (add_numbers st bs c False d False) (\<lambda>(cd, cdneg).
      rbind (multiply_numbers st bs ab cd) (\<lambda>(z1, z1neg).
      rbind (add_numbers st bs z2 z1neg z0 z0neg) (\<lambda>(z2z0, z2z0neg).
      rbind (add_numbers st bs z1 z1neg z2z0 (\<not> z2z0neg)) (\<lambda>(zmiddle, zmneg).
      rbind (add_numbers st bs (np_append (np_zeros (2 * m) st) z2) z2neg z0 z0neg)
        (\<lambda>(zends, zendsneg).
      add_numbers st bs zends zendsneg (np_append (np_zeros m st) zmiddle) zmneg)))))))))"

lemma multiply_unfold:
  assumes "length (els second) \<le> length (els first)"
  shows "multiply_numbers st bs first second =
     (if length (els first) = 1 then
        propogate_carryovers st bs (np_scale second (dtype_of first) (els first ! 0)) False
      else if length (els second) = 1 then
        propogate_carryovers st bs (np_scale first (dtype_of second) (els second ! 0)) False
      else if length (els first) = 0 \<or> length (els second) = 0 then Some (Inr (np_zeros 1 st, False))
      else karatsuba_step st bs first second)"
proof -
  have n: "\<not> length (els first) < length (els second)" using assms by simp
  show ?thesis
    by (subst multiply_numbers.simps) (simp only: n if_False Let_def karatsuba_step_def)
qed

lemma multiply_swap:
  assumes "length (els x) < length (els y)"
  shows "multiply_numbers st bs x y = multiply_numbers st bs y x"
proof -
  have n: "\<not> length (els y) < length (els x)" using assms by simp
  have l: "multiply_numbers st bs x y =
     (if length (els y) = 1 then
        propogate_carryovers st bs (np_scale x (dtype_of y) (els y ! 0)) False
      else if length (els x) = 1 then
        propogate_carryovers st bs (np_scale y (dtype_of x) (els x ! 0)) False
      else if length (els y) = 0 \<or> length (els x) = 0 then Some (Inr (np_zeros 1 st, False))
      else karatsuba_step st bs y x)"
    by (subst multiply_numbers.simps) (simp only: assms if_True Let_def karatsuba_step_def)
  have le: "length (els x) \<le> length (els y)" using assms by simp
  show ?thesis unfolding l by (rule multiply_unfold[OF le, symmetric])
qed

lemma length_trim_back: "length (trim_back xs) \<le> length xs"
  by (induction xs rule: rev_induct) (simp_all add: trim_back_snoc)

lemma good_slice_from: "good b x \<Longrightarrow> good b (slice_from m x)"
  by (simp add: good_def slice_from_def digs_drop)

lemma good_trim_slice_to: "good b x \<Longrightarrow> good b (np_trim_zeros (slice_to m x))"
  by (simp add: good_def slice_to_def np_trim_zeros_def digs_take trim_back_digs)

lemma shrink: "(0::int) \<le> v \<Longrightarrow> 2 \<le> P \<Longrightarrow> v \<le> P * v"
proof -
  assume a: "0 \<le> v" "2 \<le> P"
  then have "1 * v \<le> P * v" by (intro mult_right_mono) simp_all
  then show ?thesis by simp
qed

lemma shrink_strict: "(0::int) < v \<Longrightarrow> 2 \<le> P \<Longrightarrow> v < P * v"
proof -
  assume a: "0 < v" "2 \<le> P"
  then have "2 * v \<le> P * v" by (intro mult_right_mono) simp_all
  then show ?thesis using a(1) by linarith
qed

lemma karatsuba_algebra:
  "(P * P * (va * vc) + vb * vd) + P * ((va + vb) * (vc + vd) - (va * vc + vb * vd)) =
     (vb + P * va) * (vd + P * (vc::int))"
  by (simp add: algebra_simps)

lemma add_plus:
  assumes "good b x" "good b y" "cap st b"
  shows "\<exists>r. add_numbers st b x False y False = Some (Inr (r, False)) \<and> good b r \<and>
           trimmed (els r) \<and> val b (els r) = val b (els x) + val b (els y)"
proof -
  have p: "digs b (els x)" "digs b (els y)" "cap (dtype_of x) b" "cap (dtype_of y) b"
    using assms(1,2) by (simp_all add: good_def)
  from add_numbers_value[OF p assms(3), of False False] obtain r neg where
    r: "add_numbers st b x False y False = Some (Inr (r, neg))"
       "neg = (if swapped (els x) (els y) then False else False) \<or> (els r = [] \<and> \<not> neg)"
       "digs b (els r)" "trimmed (els r)" "cap (dtype_of r) b"
       "val b (els r) = val b (els x) + val b (els y)"
    by auto
  have "\<not> neg" using r(2) by auto
  then show ?thesis using r by (auto simp: good_def)
qed

lemma add_minus:
  assumes "good b x" "good b y" "cap st b" "trimmed (els y)" "val b (els y) \<le> val b (els x)"
  shows "\<exists>r. add_numbers st b x False y True = Some (Inr (r, False)) \<and> good b r \<and>
           trimmed (els r) \<and> val b (els r) = val b (els x) - val b (els y)"
proof -
  have p: "digs b (els x)" "digs b (els y)" "cap (dtype_of x) b" "cap (dtype_of y) b"
    using assms(1,2) by (simp_all add: good_def)
  have ns: "\<not> swapped (els x) (els y)" using p(1,2) assms(4,5) by (rule not_swapped)
  then have g: "get_bigger_smaller x y = (x, y)" by (simp add: get_bigger_smaller_def)
  have h: "val b (els (snd (get_bigger_smaller x y))) \<le> val b (els (fst (get_bigger_smaller x y)))"
    using assms(5) by (simp add: g)
  from add_numbers_value[OF p assms(3) h, of False True] obtain r neg where
    r: "add_numbers st b x False y True = Some (Inr (r, neg))"
       "neg = (if swapped (els x) (els y) then True else False) \<or> (els r = [] \<and> \<not> neg)"
       "digs b (els r)" "trimmed (els r)" "cap (dtype_of r) b"
       "val b (els r) = val b (els x) - val b (els y)"
    by (auto simp: g)
  have "\<not> neg" using r(2) ns by auto
  then show ?thesis using r by (auto simp: good_def)
qed

lemma karatsuba_ordered:
  assumes st: "cap st b" and gF: "good b F" and gS: "good b S"
    and ord: "length (els S) \<le> length (els F)"
    and IH: "\<And>f s. good b f \<Longrightarrow> good b s \<Longrightarrow>
       (val b (els f) + val b (els s) < val b (els F) + val b (els S) \<or>
        (val b (els f) + val b (els s) = val b (els F) + val b (els S) \<and>
         length (els f) + length (els s) < length (els F) + length (els S))) \<Longrightarrow>
       \<exists>r. multiply_numbers st b f s = Some (Inr (r, False)) \<and> good b r \<and>
           val b (els r) = val b (els f) * val b (els s)"
  shows "\<exists>r. multiply_numbers st b F S = Some (Inr (r, False)) \<and> good b r \<and>
           val b (els r) = val b (els F) * val b (els S)"
proof -
  have dF: "digs b (els F)" and cF: "cap (dtype_of F) b" using gF by (simp_all add: good_def)
  have dS: "digs b (els S)" and cS: "cap (dtype_of S) b" using gS by (simp_all add: good_def)
  have b2: "2 \<le> b" using st by (simp add: cap_def holds_def)
  note unf = multiply_unfold[OF ord, of st b]
  consider (one) "length (els F) = 1"
    | (single) "length (els F) \<noteq> 1" "length (els S) = 1"
    | (empty) "length (els F) \<noteq> 1" "length (els S) \<noteq> 1" "length (els F) = 0 \<or> length (els S) = 0"
    | (split) "2 \<le> length (els F)" "2 \<le> length (els S)"
    by linarith
  then show ?thesis
  proof cases
    case one
    then obtain s where F: "els F = [s]" by (cases "els F") auto
    then have s: "0 \<le> s" "s < b" using dF by simp_all
    from scale_value[OF gS cF st s, of ] obtain r where
      r: "propogate_carryovers st b (np_scale S (dtype_of F) s) False = Some (Inr (r, False))"
         "good b r" "val b (els r) = val b (els S) * s"
      by blast
    have "multiply_numbers st b F S = Some (Inr (r, False))"
      using one r(1) F by (simp add: unf)
    moreover have "val b (els r) = val b (els F) * val b (els S)" using r(3) F by simp
    ultimately show ?thesis using r(2) by blast
  next
    case single
    then obtain s where S: "els S = [s]" by (cases "els S") auto
    then have s: "0 \<le> s" "s < b" using dS by simp_all
    from scale_value[OF gF cS st s] obtain r where
      r: "propogate_carryovers st b (np_scale F (dtype_of S) s) False = Some (Inr (r, False))"
         "good b r" "val b (els r) = val b (els F) * s"
      by blast
    have "multiply_numbers st b F S = Some (Inr (r, False))"
      using single r(1) S by (simp add: unf)
    moreover have "val b (els r) = val b (els F) * val b (els S)" using r(3) S by simp
    ultimately show ?thesis using r(2) by blast
  next
    case empty
    then have "els S = []" using ord by auto
    then have "val b (els S) = 0" by simp
    moreover have "multiply_numbers st b F S = Some (Inr (np_zeros 1 st, False))"
      using empty by (simp add: unf)
    moreover have "good b (np_zeros 1 st)" using st by (rule good_zeros)
    moreover have "val b (els (np_zeros 1 st)) = 0" by (simp add: np_zeros_def)
    ultimately show ?thesis by (intro exI[of _ "np_zeros 1 st"]) simp
  next
    case split
    define m where "m = length (els F) div 2"
    define a where "a = slice_from m F"
    define bq where "bq = np_trim_zeros (slice_to m F)"
    define c where "c = slice_from m S"
    define d where "d = np_trim_zeros (slice_to m S)"
    define P where "P = b ^ m"
    define va where "va = val b (els a)"
    define vb where "vb = val b (els bq)"
    define vc where "vc = val b (els c)"
    define vd where "vd = val b (els d)"
    have m1: "1 \<le> m" "m < length (els F)" using split(1) by (simp_all add: m_def)
    have P2: "2 \<le> P"
    proof -
      have "b ^ 1 \<le> b ^ m" using m1(1) b2 by (intro power_increasing) simp_all
      then show ?thesis using b2 by (simp add: P_def)
    qed
    have ga: "good b a" and gb: "good b bq" and gc: "good b c" and gd: "good b d"
      using gF gS by (simp_all add: a_def bq_def c_def d_def good_slice_from good_trim_slice_to)
    have vF: "val b (els F) = vb + P * va"
      using val_split[of b "els F" m]
      by (simp add: vb_def va_def P_def a_def bq_def slice_from_def slice_to_def np_trim_zeros_def trim_back_val)
    have vS: "val b (els S) = vd + P * vc"
      using val_split[of b "els S" m]
      by (simp add: vd_def vc_def P_def c_def d_def slice_from_def slice_to_def np_trim_zeros_def trim_back_val)
    have nn: "0 \<le> va" "0 \<le> vb" "0 \<le> vc" "0 \<le> vd"
      using ga gb gc gd val_digs_bounds by (simp_all add: good_def va_def vb_def vc_def vd_def)
    have sa: "va \<le> P * va" and sc: "vc \<le> P * vc" using nn P2 by (simp_all add: shrink)
    have la: "length (els a) < length (els F)" using m1 by (simp add: a_def slice_from_def)
    have lc: "length (els c) \<le> length (els S)" by (simp add: c_def slice_from_def)
    have lb: "length (els bq) \<le> m"
      using length_trim_back[of "take m (els F)"] by (simp add: bq_def slice_to_def np_trim_zeros_def)
    have ld: "length (els d) \<le> length (els S)"
      using length_trim_back[of "take m (els S)"] by (simp add: d_def slice_to_def np_trim_zeros_def)
    have bqm: "vb < b ^ m"
    proof -
      have "val b (take m (els F)) < b ^ length (take m (els F))"
        using val_digs_bounds[OF digs_take[OF dF]] by simp
      then show ?thesis using m1(2)
        by (simp add: vb_def bq_def slice_to_def np_trim_zeros_def trim_back_val)
    qed
    have dm: "vd < b ^ length (els S)"
    proof -
      have "val b (take m (els S)) < b ^ length (take m (els S))"
        using val_digs_bounds[OF digs_take[OF dS]] by simp
      also have "\<dots> \<le> b ^ length (els S)" using b2 by (intro power_increasing) simp_all
      finally show ?thesis
        by (simp add: vd_def d_def slice_to_def np_trim_zeros_def trim_back_val)
    qed
    have "\<exists>r. multiply_numbers st b a c = Some (Inr (r, False)) \<and> good b r \<and>
           val b (els r) = val b (els a) * val b (els c)"
    proof (rule IH[OF ga gc])
      have "va + vc \<le> val b (els F) + val b (els S)" using vF vS sa sc nn by linarith
      moreover have "length (els a) + length (els c) < length (els F) + length (els S)"
        using la lc by linarith
      ultimately show "val b (els a) + val b (els c) < val b (els F) + val b (els S) \<or>
        (val b (els a) + val b (els c) = val b (els F) + val b (els S) \<and>
         length (els a) + length (els c) < length (els F) + length (els S))"
        unfolding va_def vc_def by linarith
    qed
    then obtain z2 where z2: "multiply_numbers st b a c = Some (Inr (z2, False))" "good b z2"
      "val b (els z2) = va * vc"
      unfolding va_def vc_def by blast
    have "\<exists>r. multiply_numbers st b bq d = Some (Inr (r, False)) \<and> good b r \<and>
           val b (els r) = val b (els bq) * val b (els d)"
    proof (rule IH[OF gb gd])
      have "vb + vd \<le> val b (els F) + val b (els S)" using vF vS sa sc nn by linarith
      moreover have "length (els bq) + length (els d) < length (els F) + length (els S)"
        using lb ld m1 by linarith
      ultimately show "val b (els bq) + val b (els d) < val b (els F) + val b (els S) \<or>
        (val b (els bq) + val b (els d) = val b (els F) + val b (els S) \<and>
         length (els bq) + length (els d) < length (els F) + length (els S))"
        unfolding vb_def vd_def by linarith
    qed
    then obtain z0 where z0: "multiply_numbers st b bq d = Some (Inr (z0, False))" "good b z0"
      "val b (els z0) = vb * vd"
      unfolding vb_def vd_def by blast
    from add_plus[OF ga gb st] obtain ab where
      ab: "add_numbers st b a False bq False = Some (Inr (ab, False))" "good b ab"
          "trimmed (els ab)" "val b (els ab) = va + vb"
      unfolding va_def vb_def by blast
    from add_plus[OF gc gd st] obtain cd where
      cd: "add_numbers st b c False d False = Some (Inr (cd, False))" "good b cd"
          "trimmed (els cd)" "val b (els cd) = vc + vd"
      unfolding vc_def vd_def by blast
    have "\<exists>r. multiply_numbers st b ab cd = Some (Inr (r, False)) \<and> good b r \<and>
           val b (els r) = val b (els ab) * val b (els cd)"
    proof (rule IH[OF ab(2) cd(2)])
      have le: "val b (els ab) + val b (els cd) \<le> val b (els F) + val b (els S)"
        using ab(4) cd(4) vF vS sa sc by linarith
      show "val b (els ab) + val b (els cd) < val b (els F) + val b (els S) \<or>
        (val b (els ab) + val b (els cd) = val b (els F) + val b (els S) \<and>
         length (els ab) + length (els cd) < length (els F) + length (els S))"
      proof (cases "val b (els ab) + val b (els cd) = val b (els F) + val b (els S)")
        case False
        with le show ?thesis by linarith
      next
        case True
        have "va = 0"
        proof (rule ccontr)
          assume "va \<noteq> 0"
          then have "va < P * va" using nn(1) P2 by (intro shrink_strict) simp_all
          then show False using True ab(4) cd(4) vF vS sc by linarith
        qed
        have "vc = 0"
        proof (rule ccontr)
          assume "vc \<noteq> 0"
          then have "vc < P * vc" using nn(3) P2 by (intro shrink_strict) simp_all
          then show False using True ab(4) cd(4) vF vS sa by linarith
        qed
        have b1: "1 \<le> b" using b2 by simp
        have dab: "digs b (els ab)" and dcd: "digs b (els cd)"
          using ab(2) cd(2) by (simp_all add: good_def)
        have "val b (els ab) < b ^ m" using ab(4) \<open>va = 0\<close> bqm by simp
        with dab ab(3) have 1: "length (els ab) \<le> m" using b1 by (rule trimmed_length)
        have "val b (els cd) < b ^ length (els S)" using cd(4) \<open>vc = 0\<close> dm by simp
        with dcd cd(3) have 2: "length (els cd) \<le> length (els S)" using b1 by (rule trimmed_length)
        from 1 2 m1(2) True show ?thesis by linarith
      qed
    qed
    then obtain z1 where z1: "multiply_numbers st b ab cd = Some (Inr (z1, False))" "good b z1"
      "val b (els z1) = (va + vb) * (vc + vd)"
      unfolding ab(4) cd(4) by blast
    from add_plus[OF z2(2) z0(2) st] obtain z2z0 where
      z2z0: "add_numbers st b z2 False z0 False = Some (Inr (z2z0, False))" "good b z2z0"
          "trimmed (els z2z0)" "val b (els z2z0) = va * vc + vb * vd"
      unfolding z2(3) z0(3) by blast
    have "0 \<le> va * vd + vb * vc" using nn by simp
    then have "va * vc + vb * vd \<le> (va + vb) * (vc + vd)" by (simp add: algebra_simps)
    then have le: "val b (els z2z0) \<le> val b (els z1)" using z2z0(4) z1(3) by simp
    from add_minus[OF z1(2) z2z0(2) st z2z0(3) le] obtain zmiddle where
      zm: "add_numbers st b z1 False z2z0 True = Some (Inr (zmiddle, False))" "good b zmiddle"
          "val b (els zmiddle) = (va + vb) * (vc + vd) - (va * vc + vb * vd)"
      unfolding z2z0(4) z1(3) by blast
    let ?hi = "np_append (np_zeros (2 * m) st) z2"
    have ghi: "good b ?hi" using good_zeros[OF st] z2(2) by (rule good_append)
    from add_plus[OF ghi z0(2) st] obtain zends where
      ze: "add_numbers st b ?hi False z0 False = Some (Inr (zends, False))" "good b zends"
          "val b (els zends) = b ^ (2 * m) * (va * vc) + vb * vd"
      unfolding val_np_append_zeros z2(3) z0(3) by blast
    let ?mid = "np_append (np_zeros m st) zmiddle"
    have gmid: "good b ?mid" using good_zeros[OF st] zm(2) by (rule good_append)
    from add_plus[OF ze(2) gmid st] obtain r where
      r: "add_numbers st b zends False ?mid False = Some (Inr (r, False))" "good b r"
          "val b (els r) = (b ^ (2 * m) * (va * vc) + vb * vd) +
             b ^ m * ((va + vb) * (vc + vd) - (va * vc + vb * vd))"
      unfolding val_np_append_zeros ze(3) zm(3) by blast
    have pp: "b ^ (2 * m) = P * P" by (simp add: P_def power_add mult_2)
    have "val b (els r) = (vb + P * va) * (vd + P * vc)"
      unfolding r(3) pp using karatsuba_algebra[of P va vc vb vd] by (simp add: P_def)
    then have val: "val b (els r) = val b (els F) * val b (els S)" by (simp only: vF vS)
    have ks: "karatsuba_step st b F S =
      rbind (multiply_numbers st b a c) (\<lambda>(z2, z2neg).
      rbind (multiply_numbers st b bq d) (\<lambda>(z0, z0neg).
      rbind (add_numbers st b a False bq False) (\<lambda>(ab, abneg).
      rbind (add_numbers st b c False d False) (\<lambda>(cd, cdneg).
      rbind (multiply_numbers st b ab cd) (\<lambda>(z1, z1neg).
      rbind (add_numbers st b z2 z1neg z0 z0neg) (\<lambda>(z2z0, z2z0neg).
      rbind (add_numbers st b z1 z1neg z2z0 (\<not> z2z0neg)) (\<lambda>(zmiddle, zmneg).
      rbind (add_numbers st b (np_append (np_zeros (2 * m) st) z2) z2neg z0 z0neg)
        (\<lambda>(zends, zendsneg).
      add_numbers st b zends zendsneg (np_append (np_zeros m st) zmiddle) zmneg))))))))"
      unfolding karatsuba_step_def Let_def m_def a_def bq_def c_def d_def by (rule refl)
    have "karatsuba_step st b F S = Some (Inr (r, False))"
      unfolding ks by (simp add: z2(1) z0(1) ab(1) cd(1) z1(1) z2z0(1) zm(1) ze(1) r(1))
    moreover have "length (els F) \<noteq> 1" "length (els S) \<noteq> 1"
      "\<not> (length (els F) = 0 \<or> length (els S) = 0)"
      using split by auto
    ultimately have "multiply_numbers st b F S = Some (Inr (r, False))"
      by (simp only: unf if_False)
    with r(2) val show ?thesis by blast
  qed
qed

lemma karatsuba_value:
  assumes st: "cap st b"
  shows "good b first \<Longrightarrow> good b second \<Longrightarrow>
         \<exists>r. multiply_numbers st b first second = Some (Inr (r, False)) \<and> good b r \<and>
             val b (els r) = val b (els first) * val b (els second)"
proof (induction "(nat (val b (els first) + val b (els second)),
                   length (els first) + length (els second))"
       arbitrary: first second rule: wf_induct_rule[OF wf_lex_prod[OF wf_less_than wf_less_than]])
  case 1
  have nn: "0 \<le> val b (els first)" "0 \<le> val b (els second)"
    using "1.prems" val_digs_bounds by (simp_all add: good_def)
  have IH: "\<exists>r. multiply_numbers st b f s = Some (Inr (r, False)) \<and> good b r \<and>
           val b (els r) = val b (els f) * val b (els s)"
    if g: "good b f" "good b s"
      and m: "val b (els f) + val b (els s) < val b (els first) + val b (els second) \<or>
        (val b (els f) + val b (els s) = val b (els first) + val b (els second) \<and>
         length (els f) + length (els s) < length (els first) + length (els second))"
    for f s
  proof (rule "1.hyps"[OF _ g])
    have "0 \<le> val b (els f)" "0 \<le> val b (els s)"
      using g val_digs_bounds by (simp_all add: good_def)
    then show "((nat (val b (els f) + val b (els s)), length (els f) + length (els s)),
           (nat (val b (els first) + val b (els second)),
            length (els first) + length (els second)))
          \<in> less_than <*lex*> less_than"
      using m nn by auto
  qed
  show ?case
  proof (cases "length (els first) < length (els second)")
    case False
    then have ord: "length (els second) \<le> length (els first)" by simp
    show ?thesis using st "1.prems" ord IH by (rule karatsuba_ordered)
  next
    case True
    then have ord: "length (els first) \<le> length (els second)" by simp
    have IH': "\<exists>r. multiply_numbers st b f s = Some (Inr (r, False)) \<and> good b r \<and>
           val b (els r) = val b (els f) * val b (els s)"
      if "good b f" "good b s"
        "val b (els f) + val b (els s) < val b (els second) + val b (els first) \<or>
        (val b (els f) + val b (els s) = val b (els second) + val b (els first) \<and>
         length (els f) + length (els s) < length (els second) + length (els first))"
      for f s
      using that by (intro IH) (simp_all add: add.commute)
    from karatsuba_ordered[OF st "1.prems"(2,1) ord IH'] obtain r where
      "multiply_numbers st b second first = Some (Inr (r, False))" "good b r"
      "val b (els r) = val b (els second) * val b (els first)"
      by blast
    then show ?thesis using multiply_swap[OF True, of st b] by (auto simp: mult.commute)
  qed
qed

end
